(* ===== verification/Prelude.thy ===== *)
theory Prelude
  imports Main "HOL-Library.Word"
begin

text \<open>
  Shared vocabulary of the development. Thread identifiers, the C \<open>int\<close> of the
  reference counter as a 32-bit word read through \<open>sint\<close>, and the
  exception-with-state result type that every operation of \<open>SmartObject\<close>
  returns: \<open>Inr w\<close> is a normal return with the new memory \<open>w\<close>,
  \<open>Inl (e, w)\<close> is the exception (or fatal fault) \<open>e\<close> raised with the memory
  as it was at the throw point. An operation of the source is a list of such
  steps run in order (\<open>run_steps\<close>); the first exception ends the list, as a C++
  throw leaves the rest of the function body unexecuted.
\<close>

type_synonym tid = nat
type_synonym int32 = "32 word"

abbreviation INT_MAX :: int where
  "INT_MAX \<equiv> 2 ^ 31 - 1"

abbreviation INT_MIN :: int where
  "INT_MIN \<equiv> - (2 ^ 31)"

type_synonym ('e, 'w) exc = "('e \<times> 'w) + 'w"

definition exc_bind :: "('e, 'w) exc \<Rightarrow> ('w \<Rightarrow> ('e, 'w) exc) \<Rightarrow> ('e, 'w) exc" where
  "exc_bind m f = (case m of Inl ew \<Rightarrow> Inl ew | Inr w \<Rightarrow> f w)"

primrec run_steps :: "('w \<Rightarrow> ('e, 'w) exc) list \<Rightarrow> 'w \<Rightarrow> ('e, 'w) exc" where
  "run_steps [] w = Inr w"
| "run_steps (f # fs) w = exc_bind (f w) (run_steps fs)"

named_theorems step_simps "characteristic equations of the micro-steps of an operation"
named_theorems count_simps "arithmetic of the 32-bit reference counter read by sint"

subsection \<open>Sequencing\<close>

lemma exc_bind_Inl [simp]: "exc_bind (Inl ew) f = Inl ew"
  by (simp add: exc_bind_def)

lemma exc_bind_Inr [simp]: "exc_bind (Inr w) f = f w"
  by (simp add: exc_bind_def)

lemma exc_bind_assoc:
  "exc_bind (exc_bind m f) g = exc_bind m (\<lambda>w. exc_bind (f w) g)"
  by (cases m) simp_all

lemma run_steps_append:
  "run_steps (fs @ gs) w = exc_bind (run_steps fs w) (run_steps gs)"
proof (induction fs arbitrary: w)
  case Nil
  show ?case by simp
next
  case (Cons f fs)
  have "run_steps (fs @ gs) = (\<lambda>w. exc_bind (run_steps fs w) (run_steps gs))"
    using Cons.IH by (rule ext)
  then show ?case by (simp add: exc_bind_assoc)
qed

lemma run_steps_single [simp]: "run_steps [f] w = f w"
  by (cases "f w") simp_all

lemma run_steps_replicate_Suc:
  "run_steps (replicate (Suc n) f) w = exc_bind (f w) (run_steps (replicate n f))"
  by simp

lemma run_steps_Inr_step:
  "f w = Inr w' \<Longrightarrow> run_steps (f # fs) w = run_steps fs w'"
  by simp

lemma run_steps_Inl_step:
  "f w = Inl ew \<Longrightarrow> run_steps (f # fs) w = Inl ew"
  by simp

subsection \<open>The 32-bit counter\<close>

lemma sint_incr [count_simps]:
  "sint (x :: int32) < INT_MAX \<Longrightarrow> sint (x + 1) = sint x + 1"
  using sint_ge [of x] by (simp add: sint_word_ariths signed_take_bit_int_eq_self)

lemma sint_decr [count_simps]:
  "INT_MIN < sint (x :: int32) \<Longrightarrow> sint (x - 1) = sint x - 1"
  using sint_lt [of x] by (simp add: sint_word_ariths signed_take_bit_int_eq_self)

lemma sint_of_nat_small: "N < 2 ^ 31 \<Longrightarrow> sint (of_nat N :: int32) = int N"
  by (simp add: signed_of_nat signed_take_bit_int_eq_self)

lemma word_eq_0_sint: "((x :: int32) = 0) = (sint x = 0)"
  by (metis sint_0 signed_eq_0_iff)

lemma sint_range: "INT_MIN \<le> sint (x :: int32) \<and> sint (x :: int32) \<le> INT_MAX"
  using sint_ge [of x] sint_lt [of x] by simp

lemma incr_decr_int32 [simp]: "(x :: int32) + 1 - 1 = x" "(x :: int32) - 1 + 1 = x"
  by simp_all

end
