(* ===== verification/Lock.thy ===== *)
theory Lock
  imports Prelude
begin

text \<open>
  The lock policy and the three lock classes behind \<open>SmartObject::m_refCounterLock\<close>.
  The enumeration \<open>LockPolicy\<close> and the classes \<open>CriticalSectionEx\<close>, \<open>Mutex\<close>
  and \<open>NoLock\<close> (derived from \<open>BaseLock\<close>) live in headers that are not part of
  the repository's sources; they are modelled from the specification (section 4.1):
  the two real locks give mutual exclusion without recursion, the no-op lock gives
  none. A lock instance is its class and its current owner. The selection of a
  lock by policy is the \<open>switch\<close> of the two constructors of \<open>SmartObject\<close>
  (epSmartObject.h), whose \<open>default:\<close> branch leaves the pointer \<open>NULL\<close>: a
  \<open>LockPolicy\<close> value outside the three enumerators, which C++ allows after a
  cast, selects no lock at all.
\<close>

datatype LockPolicy =
    LOCK_POLICY_CRITICALSECTION
  | LOCK_POLICY_MUTEX
  | LOCK_POLICY_NONE
  | LOCK_POLICY_OTHER int

datatype BaseLock = CriticalSectionEx | Mutex | NoLock

record lock_inst =
  lk_class :: BaseLock
  lk_owner :: "tid option"

text \<open>\<open>EP_NEW CriticalSectionEx()\<close> and its siblings: a fresh lock, owned by nobody.\<close>

definition new_lock :: "BaseLock \<Rightarrow> lock_inst" where
  "new_lock k = \<lparr>lk_class = k, lk_owner = None\<rparr>"

text \<open>The \<open>switch (lockPolicyType)\<close> of the constructors; \<open>None\<close> is \<open>NULL\<close>.\<close>

fun lock_for_policy :: "LockPolicy \<Rightarrow> lock_inst option" where
  "lock_for_policy LOCK_POLICY_CRITICALSECTION = Some (new_lock CriticalSectionEx)"
| "lock_for_policy LOCK_POLICY_MUTEX = Some (new_lock Mutex)"
| "lock_for_policy LOCK_POLICY_NONE = Some (new_lock NoLock)"
| "lock_for_policy (LOCK_POLICY_OTHER n) = None"

text \<open>Whether a lock class synchronises at all.\<close>

fun excludes :: "BaseLock \<Rightarrow> bool" where
  "excludes CriticalSectionEx = True"
| "excludes Mutex = True"
| "excludes NoLock = False"

text \<open>
  \<open>Lock()\<close> by thread \<open>t\<close>: \<open>None\<close> when the call has to wait, because another
  acquisition holds the lock (the locks are not recursive). \<open>NoLock::Lock()\<close> does
  nothing and never waits.
\<close>

definition lock_acquire :: "tid \<Rightarrow> lock_inst \<Rightarrow> lock_inst option" where
  "lock_acquire t l =
     (if excludes (lk_class l)
      then (case lk_owner l of
              None \<Rightarrow> Some (l\<lparr>lk_owner := Some t\<rparr>)
            | Some u \<Rightarrow> None)
      else Some l)"

text \<open>\<open>Unlock()\<close> by thread \<open>t\<close>: frees a lock that \<open>t\<close> holds, and is without
  effect otherwise (and always for \<open>NoLock\<close>).\<close>

definition lock_release :: "tid \<Rightarrow> lock_inst \<Rightarrow> lock_inst" where
  "lock_release t l =
     (if excludes (lk_class l) \<and> lk_owner l = Some t then l\<lparr>lk_owner := None\<rparr> else l)"

definition lock_free :: "lock_inst \<Rightarrow> bool" where
  "lock_free l \<longleftrightarrow> lk_owner l = None"

text \<open>The lock as thread \<open>t\<close> holds it after a successful \<open>Lock()\<close>.\<close>

definition lock_held :: "tid \<Rightarrow> lock_inst \<Rightarrow> lock_inst" where
  "lock_held t l = (if excludes (lk_class l) then l\<lparr>lk_owner := Some t\<rparr> else l)"

subsection \<open>Properties of the lock\<close>

lemma lock_acquire_free [simp]:
  "lk_owner l = None \<Longrightarrow> lock_acquire t l = Some (lock_held t l)"
  by (simp add: lock_acquire_def lock_held_def)

lemma lock_release_held [simp]:
  "lk_owner l = None \<Longrightarrow> lock_release t (lock_held t l) = l"
  by (simp add: lock_release_def lock_held_def)

lemma lk_class_lock_held [simp]: "lk_class (lock_held t l) = lk_class l"
  by (simp add: lock_held_def)

lemma lk_owner_lock_held:
  "lk_owner (lock_held t l) = (if excludes (lk_class l) then Some t else lk_owner l)"
  by (simp add: lock_held_def)

lemma lock_for_policy_free:
  "lock_for_policy p = Some l \<Longrightarrow> lk_owner l = None"
  by (cases p) (auto simp: new_lock_def)

lemma lock_for_policy_None_iff:
  "(lock_for_policy p = None) = (\<exists>n. p = LOCK_POLICY_OTHER n)"
  by (cases p) simp_all

end
