(* ===== verification/Smart_Object.thy ===== *)
theory Smart_Object
  imports Lock
begin

text \<open>
  The class \<open>epl::SmartObject\<close> of epSmartObject.h: its three fields, its two
  constructors, \<open>Retain\<close>, \<open>Release\<close> and the destructor, translated from the
  inline bodies of the \<open>_DEBUG\<close> build (lines 95--200; the release build only
  declares the same members, lines 61--89, and defines them in a file that is not
  part of the repository). The memory an operation acts on is an \<open>so_world\<close>: the
  object (\<open>None\<close> once \<open>EP_DELETE this\<close> has freed it) and the trace of the
  observable events, the lock operations, the \<open>LOG_THIS_MSG\<close> diagnostics with the
  count they print, the deletion of the lock and the freeing of the object. Every
  statement of a body is one micro-step; a body is the list of its micro-steps run
  by \<open>run_steps\<close>. A fault the C++ code has no check for (calling through a
  \<open>NULL\<close> lock pointer, using a freed object) is an error value of its own, so
  that the model never continues where the program has undefined behaviour.
  \<open>EP_VERIFY_DOMAIN_ERROR_W_MSG\<close> and \<open>EP_VERIFY_RUNTIME_ERROR_W_MSG\<close>
  (epException.h, not in the repository) throw when their condition is false
  (specification, section 7), so they are \<open>Inl\<close> results that skip the rest
  of the body; \<open>EP_DELETE this\<close> still deallocates the object when its destructor
  throws, as a C++ delete-expression does. \<open>m_refCount++\<close> and \<open>m_refCount--\<close>
  are computed on the 32-bit word, which wraps; signed overflow is undefined in
  C++, so every theorem that runs them keeps the count strictly between
  \<open>INT_MIN\<close> and \<open>INT_MAX\<close> and none depends on the wrap.
\<close>

record SmartObject =
  m_refCount :: int32
  m_refCounterLock :: "lock_inst option"
  m_lockPolicy :: LockPolicy

datatype log_kind = Allocated | Retained | Released | Deleted

datatype so_event =
    EvLock tid
  | EvUnlock tid
  | EvLog log_kind int
  | EvDeleteLock
  | EvFreeObject

datatype so_error =
    NullLockDeref
  | LockBlocked
  | NegativeRefCount int
  | NonZeroRefCount int
  | UseAfterFree

record so_world =
  obj :: "SmartObject option"
  trace :: "so_event list"

type_synonym so_result = "(so_error, so_world) exc"
type_synonym so_step = "so_world \<Rightarrow> so_result"

subsection \<open>Micro-steps\<close>

text \<open>Every member access goes through \<open>this\<close>: on a freed object it is a use after free.\<close>

definition with_obj :: "(SmartObject \<Rightarrow> so_step) \<Rightarrow> so_step" where
  "with_obj f w = (case obj w of None \<Rightarrow> Inl (UseAfterFree, w) | Some so \<Rightarrow> f so w)"

definition put_obj :: "SmartObject \<Rightarrow> so_event list \<Rightarrow> so_world \<Rightarrow> so_world" where
  "put_obj so evs w = w\<lparr>obj := Some so, trace := trace w @ evs\<rparr>"

text \<open>\<open>m_refCounterLock->Lock()\<close> (and the \<open>LockObj\<close> guard of \<open>Retain\<close>).\<close>

definition lock_step :: "tid \<Rightarrow> so_step" where
  "lock_step t = with_obj (\<lambda>so w.
     case m_refCounterLock so of
       None \<Rightarrow> Inl (NullLockDeref, w)
     | Some l \<Rightarrow>
         (case lock_acquire t l of
            None \<Rightarrow> Inl (LockBlocked, w)
          | Some l' \<Rightarrow> Inr (put_obj (so\<lparr>m_refCounterLock := Some l'\<rparr>) [EvLock t] w)))"

text \<open>\<open>m_refCounterLock->Unlock()\<close> (and the destructor of the \<open>LockObj\<close> guard).\<close>

definition unlock_step :: "tid \<Rightarrow> so_step" where
  "unlock_step t = with_obj (\<lambda>so w.
     case m_refCounterLock so of
       None \<Rightarrow> Inl (NullLockDeref, w)
     | Some l \<Rightarrow> Inr (put_obj (so\<lparr>m_refCounterLock := Some (lock_release t l)\<rparr>) [EvUnlock t] w))"

text \<open>\<open>m_refCount++\<close>, \<open>m_refCount--\<close>: wrap-around arithmetic on the 32-bit word.\<close>

definition count_step :: "(int32 \<Rightarrow> int32) \<Rightarrow> so_step" where
  "count_step f = with_obj (\<lambda>so w. Inr (put_obj (so\<lparr>m_refCount := f (m_refCount so)\<rparr>) [] w))"

text \<open>\<open>LOG_THIS_MSG(..., this->m_refCount)\<close>: records the count as printed by \<open>%d\<close>.\<close>

definition log_step :: "log_kind \<Rightarrow> so_step" where
  "log_step k = with_obj (\<lambda>so w. Inr (put_obj so [EvLog k (sint (m_refCount so))] w))"

text \<open>\<open>if (\<dots>m_refCount\<dots>) A else B\<close>, the condition read on the signed value.\<close>

definition if_count :: "(int \<Rightarrow> bool) \<Rightarrow> so_step \<Rightarrow> so_step \<Rightarrow> so_step" where
  "if_count P a b = with_obj (\<lambda>so w. if P (sint (m_refCount so)) then a w else b w)"

text \<open>The \<open>EP_VERIFY_\<dots>_W_MSG\<close> failure, carrying the count of its message.\<close>

definition throw_step :: "(int \<Rightarrow> so_error) \<Rightarrow> so_step" where
  "throw_step e = with_obj (\<lambda>so w. Inl (e (sint (m_refCount so)), w))"

definition skip_step :: so_step where
  "skip_step w = Inr w"

text \<open>\<open>if (m_refCounterLock) EP_DELETE m_refCounterLock;\<close>\<close>

definition delete_lock_step :: so_step where
  "delete_lock_step = with_obj (\<lambda>so w.
     case m_refCounterLock so of
       None \<Rightarrow> Inr w
     | Some l \<Rightarrow> Inr (put_obj (so\<lparr>m_refCounterLock := None\<rparr>) [EvDeleteLock] w))"

text \<open>The deallocation that ends \<open>EP_DELETE this\<close>.\<close>

definition free_step :: so_step where
  "free_step = with_obj (\<lambda>so w. Inr (w\<lparr>obj := None, trace := trace w @ [EvFreeObject]\<rparr>))"

subsection \<open>Construction\<close>

text \<open>\<open>SmartObject(fileName, funcName, lineNum, lockPolicyType)\<close>, lines 133--153.\<close>

definition SmartObject_ctor :: "LockPolicy \<Rightarrow> so_world" where
  "SmartObject_ctor p =
     \<lparr>obj = Some \<lparr>m_refCount = 1, m_refCounterLock = lock_for_policy p, m_lockPolicy = p\<rparr>,
      trace = [EvLog Allocated 1]\<rparr>"

text \<open>\<open>SmartObject(fileName, funcName, lineNum, const SmartObject &b)\<close>, lines 159--179.\<close>

definition SmartObject_copy :: "SmartObject \<Rightarrow> so_world" where
  "SmartObject_copy b =
     \<lparr>obj = Some \<lparr>m_refCount = 1, m_refCounterLock = lock_for_policy (m_lockPolicy b),
                  m_lockPolicy = m_lockPolicy b\<rparr>,
      trace = [EvLog Allocated 1]\<rparr>"

subsection \<open>Retain, Release, destruction\<close>

text \<open>\<open>Retain\<close>, lines 95--100: the \<open>LockObj\<close> guard unlocks at the end of the scope.\<close>

definition Retain :: "tid \<Rightarrow> so_step" where
  "Retain t = run_steps [lock_step t, count_step (\<lambda>c. c + 1), log_step Retained, unlock_step t]"

text \<open>\<open>~SmartObject\<close>, lines 184--200.\<close>

definition SmartObject_dtor :: "tid \<Rightarrow> so_step" where
  "SmartObject_dtor t = run_steps
     [lock_step t, count_step (\<lambda>c. c - 1), log_step Deleted,
      if_count (\<lambda>n. n \<noteq> 0) (throw_step NonZeroRefCount) skip_step,
      unlock_step t, delete_lock_step]"

text \<open>The errors that are C++ exceptions, thrown by \<open>EP_VERIFY_*_W_MSG\<close>; the others
  are faults (a NULL or freed pointer, a lock that never comes free) after which
  the program does not go on.\<close>

fun is_throw :: "so_error \<Rightarrow> bool" where
  "is_throw (NegativeRefCount c) = True"
| "is_throw (NonZeroRefCount c) = True"
| "is_throw _ = False"

text \<open>\<open>EP_DELETE this\<close>: the destructor, then the deallocation. The delete-expression
  calls the deallocation function even when the destructor throws (C++ [expr.delete]);
  the exception then propagates out of the delete with the storage freed.\<close>

definition delete_this :: "tid \<Rightarrow> so_step" where
  "delete_this t w =
     (case SmartObject_dtor t w of
        Inr w' \<Rightarrow> free_step w'
      | Inl (e, w') \<Rightarrow> if is_throw e then exc_bind (free_step w') (\<lambda>w''. Inl (e, w'')) else Inl (e, w'))"

text \<open>\<open>Release\<close>, lines 106--126.\<close>

definition Release :: "tid \<Rightarrow> so_step" where
  "Release t = run_steps
     [lock_step t, count_step (\<lambda>c. c - 1), log_step Released,
      if_count (\<lambda>n. n = 0)
        (run_steps [count_step (\<lambda>c. c + 1), unlock_step t, delete_this t])
        (run_steps [if_count (\<lambda>n. n < 0) (throw_step NegativeRefCount) skip_step,
                    unlock_step t])]"

subsection \<open>Invariant\<close>

text \<open>
  Between two calls, a live object holds the lock its policy selects, unowned (the
  lock the constructor built, back in its initial state), and a positive count.
\<close>

definition so_inv :: "SmartObject \<Rightarrow> bool" where
  "so_inv so \<longleftrightarrow> lock_for_policy (m_lockPolicy so) \<noteq> None
     \<and> m_refCounterLock so = lock_for_policy (m_lockPolicy so) \<and> 0 < sint (m_refCount so)"

definition world_inv :: "so_world \<Rightarrow> bool" where
  "world_inv w \<longleftrightarrow> (case obj w of None \<Rightarrow> True | Some so \<Rightarrow> so_inv so)"

text \<open>An object built with the \<open>LOCK_POLICY_MUTEX\<close> policy and count \<open>c\<close>, for the examples.\<close>

abbreviation mutex_obj :: "int32 \<Rightarrow> SmartObject" where
  "mutex_obj c \<equiv> \<lparr>m_refCount = c, m_refCounterLock = Some (new_lock Mutex), m_lockPolicy = LOCK_POLICY_MUTEX\<rparr>"

subsection \<open>Characteristic equations of the micro-steps\<close>

lemma obj_put_obj [simp]: "obj (put_obj so evs w) = Some so"
  by (simp add: put_obj_def)
lemma trace_put_obj [simp]: "trace (put_obj so evs w) = trace w @ evs"
  by (simp add: put_obj_def)
lemma put_obj_put_obj [simp]: "put_obj so2 e2 (put_obj so1 e1 w) = put_obj so2 (e1 @ e2) w"
  by (simp add: put_obj_def)
lemma put_obj_same [simp]: "obj w = Some so \<Longrightarrow> put_obj so [] w = w"
  by (simp add: put_obj_def)

lemma lock_step_free [step_simps]:
  "obj w = Some so \<Longrightarrow> m_refCounterLock so = Some l \<Longrightarrow> lk_owner l = None \<Longrightarrow>
   lock_step t w = Inr (put_obj (so\<lparr>m_refCounterLock := Some (lock_held t l)\<rparr>) [EvLock t] w)"
  by (simp add: lock_step_def with_obj_def)
lemma unlock_step_Some [step_simps]:
  "obj w = Some so \<Longrightarrow> m_refCounterLock so = Some l \<Longrightarrow>
   unlock_step t w = Inr (put_obj (so\<lparr>m_refCounterLock := Some (lock_release t l)\<rparr>) [EvUnlock t] w)"
  by (simp add: unlock_step_def with_obj_def)
lemma count_step_Some [step_simps]:
  "obj w = Some so \<Longrightarrow> count_step f w = Inr (put_obj (so\<lparr>m_refCount := f (m_refCount so)\<rparr>) [] w)"
  by (simp add: count_step_def with_obj_def)
lemma log_step_Some [step_simps]:
  "obj w = Some so \<Longrightarrow> log_step k w = Inr (put_obj so [EvLog k (sint (m_refCount so))] w)"
  by (simp add: log_step_def with_obj_def)
lemma if_count_Some [step_simps]:
  "obj w = Some so \<Longrightarrow> if_count P a b w = (if P (sint (m_refCount so)) then a w else b w)"
  by (simp add: if_count_def with_obj_def)
lemma throw_step_Some [step_simps]:
  "obj w = Some so \<Longrightarrow> throw_step e w = Inl (e (sint (m_refCount so)), w)"
  by (simp add: throw_step_def with_obj_def)
lemma delete_lock_step_Some [step_simps]:
  "obj w = Some so \<Longrightarrow> m_refCounterLock so = Some l \<Longrightarrow>
   delete_lock_step w = Inr (put_obj (so\<lparr>m_refCounterLock := None\<rparr>) [EvDeleteLock] w)"
  by (simp add: delete_lock_step_def with_obj_def)
lemma free_step_Some [step_simps]:
  "obj w = Some so \<Longrightarrow> free_step w = Inr (w\<lparr>obj := None, trace := trace w @ [EvFreeObject]\<rparr>)"
  by (simp add: free_step_def with_obj_def)
lemma skip_step_eq [step_simps]: "skip_step w = Inr w"
  by (simp add: skip_step_def)

subsection \<open>Retain and Release on an object that satisfies the invariant\<close>

lemma so_invE:
  assumes "so_inv so"
  obtains l where "m_refCounterLock so = Some l" "lk_owner l = None"
    "lock_for_policy (m_lockPolicy so) = Some l" "0 < sint (m_refCount so)"
  using assms lock_for_policy_free [of "m_lockPolicy so"]
  by (cases "m_refCounterLock so") (auto simp: so_inv_def)

lemma Retain_eq:
  assumes "so_inv so" "obj w = Some so" "sint (m_refCount so) < INT_MAX"
  shows "Retain t w = Inr (put_obj (so\<lparr>m_refCount := m_refCount so + 1\<rparr>)
            [EvLock t, EvLog Retained (sint (m_refCount so) + 1), EvUnlock t] w)"
proof -
  obtain l where l: "m_refCounterLock so = Some l" "lk_owner l = None"
    using assms(1) by (rule so_invE)
  then show ?thesis using assms(2,3)
    by (simp add: Retain_def step_simps count_simps)
qed

lemma Release_eq_live:
  assumes "so_inv so" "obj w = Some so" "1 < sint (m_refCount so)"
  shows "Release t w = Inr (put_obj (so\<lparr>m_refCount := m_refCount so - 1\<rparr>)
            [EvLock t, EvLog Released (sint (m_refCount so) - 1), EvUnlock t] w)"
proof -
  obtain l where l: "m_refCounterLock so = Some l" "lk_owner l = None"
    using assms(1) by (rule so_invE)
  then show ?thesis using assms(2,3) sint_range[of "m_refCount so"]
    by (simp add: Release_def step_simps count_simps)
qed

lemma Release_eq_last:
  assumes "so_inv so" "obj w = Some so" "sint (m_refCount so) = 1"
  shows "Release t w = Inr \<lparr>obj = None, trace = trace w @
            [EvLock t, EvLog Released 0, EvUnlock t,
             EvLock t, EvLog Deleted 0, EvUnlock t, EvDeleteLock, EvFreeObject]\<rparr>"
proof -
  obtain l where l: "m_refCounterLock so = Some l" "lk_owner l = None"
    using assms(1) by (rule so_invE)
  then show ?thesis using assms(2,3) sint_range[of "m_refCount so"]
    by (simp add: Release_def delete_this_def SmartObject_dtor_def step_simps count_simps put_obj_def)
qed


lemma so_inv_count:
  "so_inv so \<Longrightarrow> 0 < sint c \<Longrightarrow> so_inv (so\<lparr>m_refCount := c\<rparr>)"
  by (simp add: so_inv_def)

lemma retain_n:
  assumes "so_inv so" "obj w = Some so" "sint (m_refCount so) + int n \<le> INT_MAX"
  shows "\<exists>c evs. run_steps (replicate n (Retain t)) w = Inr (put_obj (so\<lparr>m_refCount := c\<rparr>) evs w)
           \<and> sint c = sint (m_refCount so) + int n"
  using assms
proof (induction n arbitrary: so w)
  case 0
  then show ?case by (intro exI [of _ "m_refCount so"] exI [of _ "[]"]) simp
next
  case (Suc n)
  let ?so' = "so\<lparr>m_refCount := m_refCount so + 1\<rparr>"
  let ?w' = "put_obj ?so' [EvLock t, EvLog Retained (sint (m_refCount so) + 1), EvUnlock t] w"
  have lt: "sint (m_refCount so) < INT_MAX" using Suc.prems(3) by simp
  have step: "Retain t w = Inr ?w'" using Suc.prems(1,2) lt by (rule Retain_eq)
  have inc: "sint (m_refCount ?so') = sint (m_refCount so) + 1" using lt by (simp add: count_simps)
  have "so_inv ?so'" using Suc.prems(1) inc by (intro so_inv_count) (auto simp: so_inv_def)
  moreover have "obj ?w' = Some ?so'" by simp
  moreover have "sint (m_refCount ?so') + int n \<le> INT_MAX" using Suc.prems(3) inc by simp
  ultimately obtain c evs where
    "run_steps (replicate n (Retain t)) ?w' = Inr (put_obj (?so'\<lparr>m_refCount := c\<rparr>) evs ?w')"
    "sint c = sint (m_refCount ?so') + int n"
    using Suc.IH by blast
  with step inc show ?case by auto
qed

lemma release_n:
  assumes "so_inv so" "obj w = Some so" "int n < sint (m_refCount so)"
  shows "\<exists>c evs. run_steps (replicate n (Release t)) w = Inr (put_obj (so\<lparr>m_refCount := c\<rparr>) evs w)
           \<and> sint c = sint (m_refCount so) - int n"
  using assms
proof (induction n arbitrary: so w)
  case 0
  then show ?case by (intro exI [of _ "m_refCount so"] exI [of _ "[]"]) simp
next
  case (Suc n)
  let ?so' = "so\<lparr>m_refCount := m_refCount so - 1\<rparr>"
  let ?w' = "put_obj ?so' [EvLock t, EvLog Released (sint (m_refCount so) - 1), EvUnlock t] w"
  have gt: "1 < sint (m_refCount so)" using Suc.prems(3) by simp
  have step: "Release t w = Inr ?w'" using Suc.prems(1,2) gt by (rule Release_eq_live)
  have dec: "sint (m_refCount ?so') = sint (m_refCount so) - 1"
    using gt by (simp add: count_simps)
  have "so_inv ?so'" using Suc.prems(1) dec gt by (intro so_inv_count) auto
  moreover have "obj ?w' = Some ?so'" by simp
  moreover have "int n < sint (m_refCount ?so')" using Suc.prems(3) dec by simp
  ultimately obtain c evs where
    "run_steps (replicate n (Release t)) ?w' = Inr (put_obj (?so'\<lparr>m_refCount := c\<rparr>) evs ?w')"
    "sint c = sint (m_refCount ?so') - int n"
    using Suc.IH by blast
  with step dec show ?case by auto
qed

lemma retain_release_roundtrip:
  assumes "so_inv so" "obj w = Some so" "sint (m_refCount so) + int n \<le> INT_MAX"
  shows "\<exists>w'. run_steps (replicate n (Retain t) @ replicate n (Release t)) w = Inr w'
              \<and> obj w' = Some so"
proof -
  obtain c evs where r: "run_steps (replicate n (Retain t)) w = Inr (put_obj (so\<lparr>m_refCount := c\<rparr>) evs w)"
      and c: "sint c = sint (m_refCount so) + int n"
    using retain_n [OF assms] by blast
  let ?so' = "so\<lparr>m_refCount := c\<rparr>"
  have inv': "so_inv ?so'" using assms(1) c by (intro so_inv_count) (auto simp: so_inv_def)
  obtain c' evs' where r': "run_steps (replicate n (Release t)) (put_obj ?so' evs w)
        = Inr (put_obj (?so'\<lparr>m_refCount := c'\<rparr>) evs' (put_obj ?so' evs w))"
      and c': "sint c' = sint c - int n"
    using release_n [OF inv', of "put_obj ?so' evs w" n t] assms(1) c by (auto simp: so_inv_def)
  have "c' = m_refCount so" using c c' by (intro signed_word_eqI) simp
  then show ?thesis using r r' by (simp add: run_steps_append)
qed

lemma ctor_inv: "lock_for_policy p \<noteq> None \<Longrightarrow> world_inv (SmartObject_ctor p)"
  by (simp add: SmartObject_ctor_def world_inv_def so_inv_def)

subsection \<open>Error paths\<close>

lemma Retain_freed [simp]: "obj w = None \<Longrightarrow> Retain t w = Inl (UseAfterFree, w)"
  by (simp add: Retain_def lock_step_def with_obj_def)

lemma Release_freed [simp]: "obj w = None \<Longrightarrow> Release t w = Inl (UseAfterFree, w)"
  by (simp add: Release_def lock_step_def with_obj_def)

lemma Release_eq_negative:
  assumes "obj w = Some so" "m_refCounterLock so = Some l" "lk_owner l = None"
    "sint (m_refCount so) \<le> 0" "INT_MIN < sint (m_refCount so)"
  shows "Release t w = Inl (NegativeRefCount (sint (m_refCount so) - 1),
           put_obj (so\<lparr>m_refCounterLock := Some (lock_held t l), m_refCount := m_refCount so - 1\<rparr>)
             [EvLock t, EvLog Released (sint (m_refCount so) - 1)] w)"
  using assms by (simp add: Release_def step_simps count_simps)

lemma dtor_eq_nonzero:
  assumes "obj w = Some so" "m_refCounterLock so = Some l" "lk_owner l = None"
    "sint (m_refCount so) \<noteq> 1" "INT_MIN < sint (m_refCount so)"
  shows "SmartObject_dtor t w = Inl (NonZeroRefCount (sint (m_refCount so) - 1),
           put_obj (so\<lparr>m_refCounterLock := Some (lock_held t l), m_refCount := m_refCount so - 1\<rparr>)
             [EvLock t, EvLog Deleted (sint (m_refCount so) - 1)] w)"
  using assms by (simp add: SmartObject_dtor_def step_simps count_simps)

lemma lock_step_blocked:
  "obj w = Some so \<Longrightarrow> m_refCounterLock so = Some l \<Longrightarrow> excludes (lk_class l) \<Longrightarrow>
   lk_owner l = Some u \<Longrightarrow> lock_step t w = Inl (LockBlocked, w)"
  by (simp add: lock_step_def with_obj_def lock_acquire_def)

lemma lock_step_null:
  "obj w = Some so \<Longrightarrow> m_refCounterLock so = None \<Longrightarrow> lock_step t w = Inl (NullLockDeref, w)"
  by (simp add: lock_step_def with_obj_def)

subsection \<open>Properties of the operations\<close>

text \<open>
  C2: Release on an object whose count is 1 destroys it. The count drops to 0, the lock is released before the destructor runs; the destructor re-acquires and releases it, deletes the lock and the object is freed. No error is raised, and the lock is never deleted while held.
\<close>

theorem Release_last_destroys:
  assumes "so_inv so" "obj w = Some so" "sint (m_refCount so) = 1"
  shows "\<exists>w'. Release t w = Inr w' \<and> obj w' = None \<and>
           trace w' = trace w @ [EvLock t, EvLog Released 0, EvUnlock t,
                                 EvLock t, EvLog Deleted 0, EvUnlock t, EvDeleteLock, EvFreeObject]"
  using Release_eq_last [OF assms, of t] by simp

theorem Release_last_destroys_witness:
  "so_inv \<lparr>m_refCount = 1, m_refCounterLock = Some (new_lock Mutex), m_lockPolicy = LOCK_POLICY_MUTEX\<rparr>
   \<and> (\<exists>w'. Release 7 \<lparr>obj = Some \<lparr>m_refCount = 1, m_refCounterLock = Some (new_lock Mutex),
                                     m_lockPolicy = LOCK_POLICY_MUTEX\<rparr>, trace = []\<rparr> = Inr w'
        \<and> obj w' = None \<and> trace w' = [EvLock 7, EvLog Released 0, EvUnlock 7,
                                 EvLock 7, EvLog Deleted 0, EvUnlock 7, EvDeleteLock, EvFreeObject])"
proof -
  let ?so = "\<lparr>m_refCount = 1 :: int32, m_refCounterLock = Some (new_lock Mutex), m_lockPolicy = LOCK_POLICY_MUTEX\<rparr>"
  have inv: "so_inv ?so" by (simp add: so_inv_def)
  show ?thesis using inv Release_last_destroys [OF inv, of "\<lparr>obj = Some ?so, trace = []\<rparr>" 7] by simp
qed

text \<open>
  C3: Release on an object whose count is above 1 decrements the count by one, leaves the object alive with its lock released, and logs the new count between the lock and the unlock.
\<close>

theorem Release_decrements:
  assumes "so_inv so" "obj w = Some so" "1 < sint (m_refCount so)"
  shows "\<exists>w'. Release t w = Inr w' \<and> obj w' = Some (so\<lparr>m_refCount := m_refCount so - 1\<rparr>)
           \<and> sint (m_refCount so - 1) = sint (m_refCount so) - 1
           \<and> trace w' = trace w @ [EvLock t, EvLog Released (sint (m_refCount so) - 1), EvUnlock t]"
  using Release_eq_live [OF assms, of t] assms(3) sint_range [of "m_refCount so"]
  by (simp add: count_simps)

theorem Release_decrements_witness:
  "so_inv \<lparr>m_refCount = 3, m_refCounterLock = Some (new_lock NoLock), m_lockPolicy = LOCK_POLICY_NONE\<rparr>
   \<and> (\<exists>w'. Release 1 \<lparr>obj = Some \<lparr>m_refCount = 3, m_refCounterLock = Some (new_lock NoLock),
                                     m_lockPolicy = LOCK_POLICY_NONE\<rparr>, trace = []\<rparr> = Inr w'
        \<and> obj w' = Some \<lparr>m_refCount = 2, m_refCounterLock = Some (new_lock NoLock), m_lockPolicy = LOCK_POLICY_NONE\<rparr>
        \<and> trace w' = [EvLock 1, EvLog Released 2, EvUnlock 1])"
proof -
  let ?so = "\<lparr>m_refCount = 3 :: int32, m_refCounterLock = Some (new_lock NoLock), m_lockPolicy = LOCK_POLICY_NONE\<rparr>"
  have inv: "so_inv ?so" by (simp add: so_inv_def)
  show ?thesis using inv Release_decrements [OF inv, of "\<lparr>obj = Some ?so, trace = []\<rparr>" 1] by simp
qed

text \<open>
  C4: Retain on a live object whose count is below INT_MAX increments the count by one, under the lock, and leaves the lock released.
\<close>

theorem Retain_increments:
  assumes "so_inv so" "obj w = Some so" "sint (m_refCount so) < INT_MAX"
  shows "\<exists>w'. Retain t w = Inr w' \<and> obj w' = Some (so\<lparr>m_refCount := m_refCount so + 1\<rparr>)
           \<and> sint (m_refCount so + 1) = sint (m_refCount so) + 1
           \<and> trace w' = trace w @ [EvLock t, EvLog Retained (sint (m_refCount so) + 1), EvUnlock t]"
  using Retain_eq [OF assms, of t] assms(3) by (simp add: count_simps)

theorem Retain_increments_witness:
  "so_inv (mutex_obj 1) \<and> (\<exists>w'. Retain 2 \<lparr>obj = Some (mutex_obj 1), trace = []\<rparr> = Inr w'
        \<and> obj w' = Some (mutex_obj 2) \<and> trace w' = [EvLock 2, EvLog Retained 2, EvUnlock 2])"
proof -
  have inv: "so_inv (mutex_obj 1)" by (simp add: so_inv_def)
  show ?thesis using inv Retain_increments [OF inv, of "\<lparr>obj = Some (mutex_obj 1), trace = []\<rparr>" 2] by simp
qed

text \<open>
  C8: Release that drives the count below zero raises NegativeRefCount carrying the negative count and does not destroy the object. The exception leaves the lock held by the caller, so for a real lock every later Retain or Release by any thread blocks.
\<close>

theorem Release_negative_keeps_lock:
  assumes "obj w = Some so" "m_refCounterLock so = Some l" "lk_owner l = None"
    "sint (m_refCount so) \<le> 0" "INT_MIN < sint (m_refCount so)"
  shows "\<exists>w'. Release t w = Inl (NegativeRefCount (sint (m_refCount so) - 1), w')
           \<and> obj w' = Some (so\<lparr>m_refCounterLock := Some (lock_held t l), m_refCount := m_refCount so - 1\<rparr>)
           \<and> (excludes (lk_class l) \<longrightarrow> (\<forall>u. Retain u w' = Inl (LockBlocked, w') \<and> Release u w' = Inl (LockBlocked, w')))"
proof -
  let ?so' = "so\<lparr>m_refCounterLock := Some (lock_held t l), m_refCount := m_refCount so - 1\<rparr>"
  let ?w' = "put_obj ?so' [EvLock t, EvLog Released (sint (m_refCount so) - 1)] w"
  have "excludes (lk_class l) \<Longrightarrow> Retain u ?w' = Inl (LockBlocked, ?w') \<and> Release u ?w' = Inl (LockBlocked, ?w')" for u
    by (simp add: Retain_def Release_def lock_step_blocked [of ?w' ?so' "lock_held t l" t u] lk_owner_lock_held)
  then show ?thesis using Release_eq_negative [OF assms, of t] by auto
qed

theorem Release_negative_keeps_lock_witness:
  "(\<exists>w'. Release 4 \<lparr>obj = Some (mutex_obj 0), trace = []\<rparr> = Inl (NegativeRefCount (-1), w')
        \<and> obj w' = Some \<lparr>m_refCount = -1, m_refCounterLock = Some (lock_held 4 (new_lock Mutex)), m_lockPolicy = LOCK_POLICY_MUTEX\<rparr>
        \<and> (\<forall>u. Retain u w' = Inl (LockBlocked, w') \<and> Release u w' = Inl (LockBlocked, w')))"
  using Release_negative_keeps_lock [of "\<lparr>obj = Some (mutex_obj 0), trace = []\<rparr>" "mutex_obj 0" "new_lock Mutex" 4]
  by (simp add: new_lock_def)

text \<open>
  C9: Deleting an object directly while its count is above 1 makes the destructor throw NonZeroRefCount, carrying the decremented count. The throw comes before the destructor's Unlock and before it deletes the lock. The delete-expression still frees the object, so the lock is left held and is never deleted: it leaks. Every other owner is left holding a dangling reference.
\<close>

theorem dtor_nonzero_count:
  assumes "so_inv so" "obj w = Some so" "1 < sint (m_refCount so)"
  shows "delete_this t w = Inl (NonZeroRefCount (sint (m_refCount so) - 1),
           w\<lparr>obj := None, trace := trace w @ [EvLock t, EvLog Deleted (sint (m_refCount so) - 1), EvFreeObject]\<rparr>)"
proof -
  obtain l where l: "m_refCounterLock so = Some l" "lk_owner l = None"
    using assms(1) by (rule so_invE)
  have "INT_MIN < sint (m_refCount so)" using assms(3) by simp
  then show ?thesis using dtor_eq_nonzero [OF assms(2) l, of t] assms(3)
    by (simp add: delete_this_def step_simps put_obj_def)
qed

theorem dtor_nonzero_count_witness:
  "so_inv (mutex_obj 2) \<and> delete_this 0 \<lparr>obj = Some (mutex_obj 2), trace = []\<rparr>
     = Inl (NonZeroRefCount 1, \<lparr>obj = None, trace = [EvLock 0, EvLog Deleted 1, EvFreeObject]\<rparr>)"
proof -
  have inv: "so_inv (mutex_obj 2)" by (simp add: so_inv_def)
  show ?thesis using inv dtor_nonzero_count [OF inv, of "\<lparr>obj = Some (mutex_obj 2), trace = []\<rparr>" 0] by simp
qed

text \<open>
  C10: Take an object whose policy lies outside the three enumerators, so that either constructor's switch has left its lock NULL. Whatever its count and whatever thread calls, Retain, Release and delete all fault on the NULL dereference in their first statement and change nothing. The destructor therefore never reaches its own NULL check at line 196.
\<close>

theorem null_lock_faults:
  assumes "obj w = Some so" "m_refCounterLock so = lock_for_policy (m_lockPolicy so)"
    "lock_for_policy (m_lockPolicy so) = None"
  shows "Retain t w = Inl (NullLockDeref, w) \<and> Release t w = Inl (NullLockDeref, w)
       \<and> delete_this t w = Inl (NullLockDeref, w)"
  using lock_step_null [of w so t] assms
  by (simp add: Retain_def Release_def delete_this_def SmartObject_dtor_def)

theorem null_lock_faults_witness:
  "Retain 0 (SmartObject_ctor (LOCK_POLICY_OTHER 7)) = Inl (NullLockDeref, SmartObject_ctor (LOCK_POLICY_OTHER 7))
   \<and> Release 0 (SmartObject_ctor (LOCK_POLICY_OTHER 7)) = Inl (NullLockDeref, SmartObject_ctor (LOCK_POLICY_OTHER 7))
   \<and> delete_this 0 (SmartObject_ctor (LOCK_POLICY_OTHER 7)) = Inl (NullLockDeref, SmartObject_ctor (LOCK_POLICY_OTHER 7))"
  using null_lock_faults [of "SmartObject_ctor (LOCK_POLICY_OTHER 7)"
      "\<lparr>m_refCount = 1, m_refCounterLock = None, m_lockPolicy = LOCK_POLICY_OTHER 7\<rparr>" 0]
  by (simp add: SmartObject_ctor_def)

text \<open>
  C11: While an exclusive lock is held, Retain, Release and delete by any thread cannot proceed. They leave the memory unchanged.
\<close>

theorem held_lock_blocks:
  assumes "obj w = Some so" "m_refCounterLock so = Some l" "excludes (lk_class l)" "lk_owner l = Some u"
  shows "Retain t w = Inl (LockBlocked, w) \<and> Release t w = Inl (LockBlocked, w)
       \<and> delete_this t w = Inl (LockBlocked, w)"
  using lock_step_blocked [OF assms, of t]
  by (simp add: Retain_def Release_def delete_this_def SmartObject_dtor_def)

theorem held_lock_blocks_witness:
  "Retain 1 \<lparr>obj = Some (mutex_obj 2\<lparr>m_refCounterLock := Some (lock_held 0 (new_lock Mutex))\<rparr>), trace = []\<rparr>
     = Inl (LockBlocked, \<lparr>obj = Some (mutex_obj 2\<lparr>m_refCounterLock := Some (lock_held 0 (new_lock Mutex))\<rparr>), trace = []\<rparr>)
   \<and> Release 1 \<lparr>obj = Some (mutex_obj 2\<lparr>m_refCounterLock := Some (lock_held 0 (new_lock Mutex))\<rparr>), trace = []\<rparr>
     = Inl (LockBlocked, \<lparr>obj = Some (mutex_obj 2\<lparr>m_refCounterLock := Some (lock_held 0 (new_lock Mutex))\<rparr>), trace = []\<rparr>)
   \<and> delete_this 1 \<lparr>obj = Some (mutex_obj 2\<lparr>m_refCounterLock := Some (lock_held 0 (new_lock Mutex))\<rparr>), trace = []\<rparr>
     = Inl (LockBlocked, \<lparr>obj = Some (mutex_obj 2\<lparr>m_refCounterLock := Some (lock_held 0 (new_lock Mutex))\<rparr>), trace = []\<rparr>)"
proof -
  let ?so = "mutex_obj 2\<lparr>m_refCounterLock := Some (lock_held 0 (new_lock Mutex))\<rparr>"
  show ?thesis
    using held_lock_blocks [of "\<lparr>obj = Some ?so, trace = []\<rparr>" ?so "lock_held 0 (new_lock Mutex)" 0 1]
    by (simp add: lock_held_def new_lock_def)
qed

text \<open>
  C12: On an object that satisfies the invariant and whose count is below INT_MAX, Retain and Release both return normally. The resulting memory satisfies the invariant again: a live object with its policy's free lock and a positive count, or a freed object.
\<close>

theorem ops_preserve_inv:
  assumes "world_inv w" "obj w = Some so" "sint (m_refCount so) < INT_MAX"
  shows "(\<exists>w'. Retain t w = Inr w' \<and> world_inv w') \<and> (\<exists>w'. Release t w = Inr w' \<and> world_inv w')"
proof -
  have inv: "so_inv so" using assms(1,2) by (simp add: world_inv_def)
  have "so_inv (so\<lparr>m_refCount := m_refCount so + 1\<rparr>)"
    using inv assms(3) by (intro so_inv_count) (auto simp: so_inv_def count_simps)
  then have r: "\<exists>w'. Retain t w = Inr w' \<and> world_inv w'"
    using Retain_eq [OF inv assms(2,3), of t] by (simp add: world_inv_def)
  have "\<exists>w'. Release t w = Inr w' \<and> world_inv w'"
  proof (cases "sint (m_refCount so) = 1")
    case True
    then show ?thesis using Release_eq_last [OF inv assms(2) True, of t] by (simp add: world_inv_def)
  next
    case False
    then have gt: "1 < sint (m_refCount so)" using inv by (simp add: so_inv_def)
    then show ?thesis using Release_eq_live [OF inv assms(2) gt, of t] inv sint_range [of "m_refCount so"]
      by (simp add: world_inv_def so_inv_count count_simps)
  qed
  with r show ?thesis by blast
qed

theorem ops_preserve_inv_witness:
  "world_inv (SmartObject_ctor LOCK_POLICY_CRITICALSECTION)
   \<and> (\<exists>w'. Retain 0 (SmartObject_ctor LOCK_POLICY_CRITICALSECTION) = Inr w' \<and> world_inv w')
   \<and> (\<exists>w'. Release 0 (SmartObject_ctor LOCK_POLICY_CRITICALSECTION) = Inr w' \<and> world_inv w')"
  using ops_preserve_inv [of "SmartObject_ctor LOCK_POLICY_CRITICALSECTION"
      "\<lparr>m_refCount = 1, m_refCounterLock = lock_for_policy LOCK_POLICY_CRITICALSECTION,
        m_lockPolicy = LOCK_POLICY_CRITICALSECTION\<rparr>" 0]
  by (simp add: SmartObject_ctor_def world_inv_def so_inv_def)

end
