(* ===== verification/Refcount_Spec.thy ===== *)
theory Refcount_Spec
  imports Prelude
begin

text \<open>
  The contract of a reference-counted object as the specification states it
  (section 4.2, "State machine"): a live object with \<open>N\<close> owners goes to
  \<open>N + 1\<close> on \<open>Retain\<close>, to \<open>N - 1\<close> on \<open>Release\<close> while \<open>N > 1\<close>, and is
  destroyed by the \<open>Release\<close> that finds \<open>N = 1\<close>; nothing may be called on a
  destroyed object (\<open>None\<close>). The count is unbounded here; the implementation
  refines this machine as long as its 32-bit counter does not overflow
  (theory Spec2Isabelle).
\<close>

datatype rc_state = Live nat | Destroyed

datatype rc_op = OpRetain | OpRelease

fun rc_step :: "rc_state \<Rightarrow> rc_op \<Rightarrow> rc_state option" where
  "rc_step (Live n) OpRetain = Some (Live (Suc n))"
| "rc_step (Live n) OpRelease = Some (if n \<le> 1 then Destroyed else Live (n - 1))"
| "rc_step Destroyed op = None"

fun rc_run :: "rc_state \<Rightarrow> rc_op list \<Rightarrow> rc_state option" where
  "rc_run s [] = Some s"
| "rc_run s (op # ops) = (case rc_step s op of None \<Rightarrow> None | Some s' \<Rightarrow> rc_run s' ops)"

fun rc_count :: "rc_state \<Rightarrow> nat" where
  "rc_count (Live n) = n"
| "rc_count Destroyed = 0"

fun_cases rc_step_LiveE: "rc_step (Live n) op = Some s'"

lemma rc_step_Destroyed [simp]: "rc_step Destroyed op = None"
  by simp

lemma rc_run_Destroyed: "ops \<noteq> [] \<Longrightarrow> rc_run Destroyed ops = None"
  by (cases ops) simp_all

lemma rc_run_append:
  "rc_run s (xs @ ys) = (case rc_run s xs of None \<Rightarrow> None | Some s' \<Rightarrow> rc_run s' ys)"
  by (induction s xs rule: rc_run.induct) (simp_all split: option.split)

lemma rc_step_count_bound:
  "rc_step s op = Some s' \<Longrightarrow> rc_count s' \<le> Suc (rc_count s)"
  by (cases s; cases op) auto

lemma rc_run_retains: "rc_run (Live n) (replicate k OpRetain) = Some (Live (n + k))"
  by (induction k arbitrary: n) simp_all

lemma rc_run_releases:
  "k < n \<Longrightarrow> rc_run (Live n) (replicate k OpRelease) = Some (Live (n - k))"
proof (induction k arbitrary: n)
  case 0
  then show ?case by simp
next
  case (Suc k)
  then show ?case by (simp add: Suc_diff_Suc)
qed

end
