(* ===== verification/Diagnostics.thy ===== *)
theory Diagnostics
  imports Smart_Object
begin

text \<open>
  The text the \<open>_DEBUG\<close> build prints. Every member of the debug build takes the
  caller's file, function and line (\<open>fileName\<close>, \<open>funcName\<close>, \<open>lineNum\<close>, lines
  95, 106, 133, 159), which the call-site macros of lines 214--218 supply.
  \<open>LOG_THIS_MSG\<close> prints one line per logged event with the format strings of lines
  99, 110, 136, 162 and 188, and the failed checks of \<open>Release\<close> and of the
  destructor carry the messages that \<open>System::SPrintf\<close> builds at lines 121 and 192.
  The event trace of theory \<open>Smart_Object\<close> records which line was printed and the
  count it printed; here each event becomes its text (\<open>printed\<close>), and a debug
  member called from a site returns its result with the lines it printed
  (\<open>dbg_call\<close>). The \<open>%d\<close> conversion of the C library is spelled out for
  \<open>int\<close> values; the pointer \<open>this\<close>, which the format strings also print with
  \<open>%d\<close>, is an integer parameter.
\<close>

subsection \<open>The conversion \<open>%d\<close>\<close>

text \<open>The character of a decimal digit \<open>d < 10\<close>.\<close>

definition digit_char :: "nat \<Rightarrow> char" where
  "digit_char d = char_of (d + 48)"

text \<open>The decimal digits of \<open>n\<close>, most significant first: those of \<open>n div 10\<close>
  when there are any, then the last one.\<close>

fun string_of_nat :: "nat \<Rightarrow> string" where
  "string_of_nat n = (if 10 \<le> n then string_of_nat (n div 10) else []) @ [digit_char (n mod 10)]"

definition string_of_int :: "int \<Rightarrow> string" where
  "string_of_int i = (if 0 \<le> i then string_of_nat (nat i) else CHR ''-'' # string_of_nat (nat (- i)))"

subsection \<open>The call site\<close>

record call_site =
  site_file :: string
  site_func :: string
  site_line :: nat

text \<open>\<open>#define Retain() Retain(__TFILE__,__TFUNCTION__,__LINE__)\<close> and its siblings
  (lines 214--218): a call written at a site passes that site's file, function and
  line to the debug member.\<close>

definition at_call_site :: "call_site \<Rightarrow> (string \<Rightarrow> string \<Rightarrow> nat \<Rightarrow> 'a) \<Rightarrow> 'a" where
  "at_call_site cs f = f (site_file cs) (site_func cs) (site_line cs)"

subsection \<open>The format strings\<close>

text \<open>\<open>"%s::%s(%d) "\<close>, the head of the lines printed by the members that take a call site.\<close>

definition site_prefix :: "string \<Rightarrow> string \<Rightarrow> nat \<Rightarrow> string" where
  "site_prefix fileName funcName lineNum =
     fileName @ ''::'' @ funcName @ ''('' @ string_of_nat lineNum @ '') ''"

text \<open>\<open>" Object : %d (Current Reference Count = %d)"\<close>, the tail of every line, with
  \<open>this\<close> and \<open>this->m_refCount\<close>.\<close>

definition count_suffix :: "int \<Rightarrow> int \<Rightarrow> string" where
  "count_suffix this c = '' Object : '' @ string_of_int this @ '' (Current Reference Count = '' @ string_of_int c @ '')''"

text \<open>Line 99, in \<open>Retain\<close>.\<close>

definition retained_msg :: "string \<Rightarrow> string \<Rightarrow> nat \<Rightarrow> int \<Rightarrow> int \<Rightarrow> string" where
  "retained_msg fileName funcName lineNum this c = site_prefix fileName funcName lineNum @ ''Retained'' @ count_suffix this c"

text \<open>Line 110, in \<open>Release\<close>.\<close>

definition released_msg :: "string \<Rightarrow> string \<Rightarrow> nat \<Rightarrow> int \<Rightarrow> int \<Rightarrow> string" where
  "released_msg fileName funcName lineNum this c = site_prefix fileName funcName lineNum @ ''Released'' @ count_suffix this c"

text \<open>Lines 136 and 162, in the two constructors.\<close>

definition allocated_msg :: "string \<Rightarrow> string \<Rightarrow> nat \<Rightarrow> int \<Rightarrow> int \<Rightarrow> string" where
  "allocated_msg fileName funcName lineNum this c = site_prefix fileName funcName lineNum @ ''Allocated'' @ count_suffix this c"

text \<open>Line 188, in the destructor, which takes no call site.\<close>

definition deleted_msg :: "int \<Rightarrow> int \<Rightarrow> string" where
  "deleted_msg this c = ''Deleted'' @ count_suffix this c"

text \<open>Lines 120--121: the message of the failed check of \<open>Release\<close>.\<close>

definition negative_msg :: "int \<Rightarrow> string" where
  "negative_msg c = ''Reference Count is negative Value! Reference Count : '' @ string_of_int c"

text \<open>Lines 191--192: the message of the destructor's failed check.\<close>

definition nonzero_msg :: "int \<Rightarrow> string" where
  "nonzero_msg c = ''The Reference Count is not 0!! Reference Count : '' @ string_of_int c"

text \<open>\<open>LOG_THIS_MSG\<close> for one event of the trace, by the object at \<open>this\<close> and for a
  call from the given site.\<close>

fun log_line :: "string \<Rightarrow> string \<Rightarrow> nat \<Rightarrow> int \<Rightarrow> so_event \<Rightarrow> string option" where
  "log_line fileName funcName lineNum this (EvLog Retained c) = Some (retained_msg fileName funcName lineNum this c)"
| "log_line fileName funcName lineNum this (EvLog Released c) = Some (released_msg fileName funcName lineNum this c)"
| "log_line fileName funcName lineNum this (EvLog Allocated c) = Some (allocated_msg fileName funcName lineNum this c)"
| "log_line fileName funcName lineNum this (EvLog Deleted c) = Some (deleted_msg this c)"
| "log_line fileName funcName lineNum this _ = None"

definition printed :: "string \<Rightarrow> string \<Rightarrow> nat \<Rightarrow> int \<Rightarrow> so_event list \<Rightarrow> string list" where
  "printed fileName funcName lineNum this evs =
     concat (map (\<lambda>e. case log_line fileName funcName lineNum this e of None \<Rightarrow> [] | Some l \<Rightarrow> [l]) evs)"

text \<open>The message an exception carries.\<close>

fun error_msg :: "so_error \<Rightarrow> string option" where
  "error_msg (NegativeRefCount c) = Some (negative_msg c)"
| "error_msg (NonZeroRefCount c) = Some (nonzero_msg c)"
| "error_msg _ = None"

text \<open>A debug member called with its site: the result of the operation and the lines
  it prints.\<close>

definition dbg_call :: "so_step \<Rightarrow> string \<Rightarrow> string \<Rightarrow> nat \<Rightarrow> int \<Rightarrow> so_world \<Rightarrow> so_result \<times> string list" where
  "dbg_call f fileName funcName lineNum this w =
     (let r = f w; w' = (case r of Inl (e, w') \<Rightarrow> w' | Inr w' \<Rightarrow> w')
      in (r, printed fileName funcName lineNum this (drop (length (trace w)) (trace w'))))"

subsection \<open>What the debug members print\<close>

lemma printed_append [simp]:
  "printed fileName funcName lineNum this (xs @ ys)
     = printed fileName funcName lineNum this xs @ printed fileName funcName lineNum this ys"
  by (simp add: printed_def)

lemma dbg_call_Inr:
  "f w = Inr (put_obj so evs w) \<Longrightarrow>
   dbg_call f fileName funcName lineNum this w = (f w, printed fileName funcName lineNum this evs)"
  by (simp add: dbg_call_def)

text \<open>A debug \<open>Retain\<close> called from a site prints the one line of line 99 with the
  count it has just stored; a debug \<open>Release\<close> above 1 prints the line of line 110.\<close>

lemma dbg_Retain_prints:
  assumes "so_inv so" "obj w = Some so" "sint (m_refCount so) < INT_MAX"
  shows "dbg_call (Retain t) fileName funcName lineNum this w
           = (Retain t w, [retained_msg fileName funcName lineNum this (sint (m_refCount so) + 1)])"
  using dbg_call_Inr [where f = "Retain t", OF Retain_eq [OF assms]] by (simp add: printed_def)

lemma dbg_Release_prints:
  assumes "so_inv so" "obj w = Some so" "1 < sint (m_refCount so)"
  shows "dbg_call (Release t) fileName funcName lineNum this w
           = (Release t w, [released_msg fileName funcName lineNum this (sint (m_refCount so) - 1)])"
  using dbg_call_Inr [where f = "Release t", OF Release_eq_live [OF assms]] by (simp add: printed_def)

end
