(* ===== verification/Threads.thy ===== *)
theory Threads
  imports Smart_Object Refcount_Spec "HOL-Library.Sublist"
begin

text \<open>
  Concurrent calls of \<open>Retain\<close> and \<open>Release\<close> on one object (specification,
  section 5). Each thread runs a list of calls, one statement of the source per step,
  and a scheduler picks any thread that can move (\<open>sys_step\<close>, \<open>reach\<close>). The
  increment and the decrement of \<open>m_refCount\<close> are a load and a store, as the
  compiled \<open>m_refCount++\<close> is, so that unsynchronised threads can lose an update.
  \<open>Lock()\<close> on a lock held by another thread disables the thread until the
  holder unlocks. The ghost field \<open>net\<close> counts each thread's stored increments
  minus decrements. The invariant \<open>sys_inv\<close> gives mutual exclusion and an exact
  count for the exclusive policies: the count is 1 plus the sum of the threads' \<open>net\<close>.
  Every step of a thread lowers the measure \<open>steps_left\<close>, and with an exclusive
  policy every reachable state can be completed (by well-founded induction on it).
\<close>

text \<open>Where a thread is in its current call: the statement it executes next.\<close>

datatype tpc =
    TIdle
  | TRetainLoad | TRetainStore int32 | TRetainLog | TRetainUnlock
  | TReleaseLoad | TReleaseStore int32 | TReleaseLog | TReleaseTest | TReleaseUnlock
  | TReleaseDelete
  | TFault so_error

record tstate =
  pc :: tpc
  todo :: "rc_op list"
  net :: int

record sys =
  mem :: so_world
  thr :: "tid \<Rightarrow> tstate"

text \<open>One statement's result applied to the system: \<open>LockBlocked\<close> disables the
  thread, any other exception leaves it faulted.\<close>

definition thread_do :: "tid \<Rightarrow> so_result \<Rightarrow> (tstate \<Rightarrow> tstate) \<Rightarrow> sys \<Rightarrow> sys option" where
  "thread_do i r f s =
     (case r of
        Inr w' \<Rightarrow> Some (s\<lparr>mem := w', thr := (thr s)(i := f (thr s i))\<rparr>)
      | Inl (LockBlocked, w') \<Rightarrow> None
      | Inl (e, w') \<Rightarrow> Some (s\<lparr>mem := w', thr := (thr s)(i := (thr s i)\<lparr>pc := TFault e\<rparr>)\<rparr>))"

text \<open>One step of thread \<open>i\<close>: the statements of \<open>Retain\<close> (lines 97--99) and
  \<open>Release\<close> (lines 108--124), the count update split into its load and its store.
  The zero branch of \<open>Release\<close> (lines 113--116) runs as one step: no other
  thread holds a reference to the object at that point.\<close>

fun thread_step :: "tid \<Rightarrow> sys \<Rightarrow> sys option" where
  "thread_step i s =
     (let ts = thr s i; w = mem s in
      case pc ts of
        TIdle \<Rightarrow>
          (case todo ts of
             [] \<Rightarrow> None
           | op # rest \<Rightarrow>
               thread_do i (lock_step i w)
                 (\<lambda>ts. ts\<lparr>pc := (case op of OpRetain \<Rightarrow> TRetainLoad | OpRelease \<Rightarrow> TReleaseLoad),
                          todo := rest\<rparr>) s)
      | TRetainLoad \<Rightarrow>
          (case obj w of
             None \<Rightarrow> thread_do i (Inl (UseAfterFree, w)) id s
           | Some so \<Rightarrow> thread_do i (Inr w) (\<lambda>ts. ts\<lparr>pc := TRetainStore (m_refCount so)\<rparr>) s)
      | TRetainStore c \<Rightarrow>
          thread_do i (count_step (\<lambda>_. c + 1) w) (\<lambda>ts. ts\<lparr>pc := TRetainLog, net := net ts + 1\<rparr>) s
      | TRetainLog \<Rightarrow> thread_do i (log_step Retained w) (\<lambda>ts. ts\<lparr>pc := TRetainUnlock\<rparr>) s
      | TRetainUnlock \<Rightarrow> thread_do i (unlock_step i w) (\<lambda>ts. ts\<lparr>pc := TIdle\<rparr>) s
      | TReleaseLoad \<Rightarrow>
          (case obj w of
             None \<Rightarrow> thread_do i (Inl (UseAfterFree, w)) id s
           | Some so \<Rightarrow> thread_do i (Inr w) (\<lambda>ts. ts\<lparr>pc := TReleaseStore (m_refCount so)\<rparr>) s)
      | TReleaseStore c \<Rightarrow>
          thread_do i (count_step (\<lambda>_. c - 1) w) (\<lambda>ts. ts\<lparr>pc := TReleaseLog, net := net ts - 1\<rparr>) s
      | TReleaseLog \<Rightarrow> thread_do i (log_step Released w) (\<lambda>ts. ts\<lparr>pc := TReleaseTest\<rparr>) s
      | TReleaseTest \<Rightarrow>
          (case obj w of
             None \<Rightarrow> thread_do i (Inl (UseAfterFree, w)) id s
           | Some so \<Rightarrow>
               if sint (m_refCount so) = 0 then thread_do i (Inr w) (\<lambda>ts. ts\<lparr>pc := TReleaseDelete\<rparr>) s
               else if sint (m_refCount so) < 0 then thread_do i (throw_step NegativeRefCount w) id s
               else thread_do i (Inr w) (\<lambda>ts. ts\<lparr>pc := TReleaseUnlock\<rparr>) s)
      | TReleaseUnlock \<Rightarrow> thread_do i (unlock_step i w) (\<lambda>ts. ts\<lparr>pc := TIdle\<rparr>) s
      | TReleaseDelete \<Rightarrow>
          thread_do i (run_steps [count_step (\<lambda>c. c + 1), unlock_step i, delete_this i] w)
            (\<lambda>ts. ts\<lparr>pc := TIdle\<rparr>) s
      | TFault e \<Rightarrow> None)"

text \<open>A schedule: the threads that move, in order; \<open>None\<close> when one cannot.\<close>

fun run_sched :: "tid list \<Rightarrow> sys \<Rightarrow> sys option" where
  "run_sched [] s = Some s"
| "run_sched (i # sched) s = (case thread_step i s of None \<Rightarrow> None | Some s' \<Rightarrow> run_sched sched s')"

inductive sys_step :: "sys \<Rightarrow> sys \<Rightarrow> bool" where
  step: "thread_step i s = Some s' \<Longrightarrow> sys_step s s'"

inductive reach :: "sys \<Rightarrow> sys \<Rightarrow> bool" for s0 :: sys where
  refl: "reach s0 s0"
| step: "reach s0 s \<Longrightarrow> sys_step s s' \<Longrightarrow> reach s0 s'"

text \<open>A freshly constructed object shared by \<open>n\<close> threads; thread \<open>i\<close> runs the
  calls \<open>prog i\<close>, the other thread ids run nothing.\<close>

definition init_prog :: "LockPolicy \<Rightarrow> nat \<Rightarrow> (tid \<Rightarrow> rc_op list) \<Rightarrow> sys" where
  "init_prog p n prog =
     \<lparr>mem = SmartObject_ctor p,
      thr = (\<lambda>i. if i < n then \<lparr>pc = TIdle, todo = prog i, net = 0\<rparr>
                 else \<lparr>pc = TIdle, todo = [], net = 0\<rparr>)\<rparr>"

text \<open>The scenario of the specification: the creator holds the initial reference,
  and each of \<open>n\<close> threads calls \<open>Retain\<close> and then \<open>Release\<close>.\<close>

definition init_sys :: "LockPolicy \<Rightarrow> nat \<Rightarrow> sys" where
  "init_sys p n = init_prog p n (\<lambda>i. [OpRetain, OpRelease])"

text \<open>Retains minus releases of a list of calls; a program never releases more than it
  has retained when every prefix has a nonnegative balance.\<close>

fun bal :: "rc_op list \<Rightarrow> int" where
  "bal [] = 0"
| "bal (OpRetain # ops) = bal ops + 1"
| "bal (OpRelease # ops) = bal ops - 1"

fun never_overdraws :: "int \<Rightarrow> rc_op list \<Rightarrow> bool" where
  "never_overdraws k [] = (0 \<le> k)"
| "never_overdraws k (OpRetain # ops) = (0 \<le> k \<and> never_overdraws (k + 1) ops)"
| "never_overdraws k (OpRelease # ops) = (0 \<le> k \<and> never_overdraws (k - 1) ops)"

definition total_retains :: "nat \<Rightarrow> (tid \<Rightarrow> rc_op list) \<Rightarrow> nat" where
  "total_retains n prog = (\<Sum>i<n. count_list (prog i) OpRetain)"

definition all_done :: "sys \<Rightarrow> bool" where
  "all_done s \<longleftrightarrow> (\<forall>i. pc (thr s i) = TIdle \<and> todo (thr s i) = [])"

text \<open>Between \<open>Lock()\<close> and \<open>Unlock()\<close>.\<close>

fun in_cs :: "tpc \<Rightarrow> bool" where
  "in_cs TIdle = False"
| "in_cs (TFault e) = False"
| "in_cs _ = True"

text \<open>What each position of a thread implies about its program \<open>prg\<close>: the
  calls still to do are a suffix of it, the call in progress precedes them, and
  \<open>net\<close> is the balance of the calls done (of the stores done, within the current call).
  A thread at a store position is about to write the value \<open>c\<close> it loaded.\<close>

definition tpos :: "int32 \<Rightarrow> rc_op list \<Rightarrow> tstate \<Rightarrow> bool" where
  "tpos c prg ts \<longleftrightarrow> (let k = net ts; t = todo ts in case pc ts of
      TIdle \<Rightarrow> suffix t prg \<and> k = bal prg - bal t
    | TRetainLoad \<Rightarrow> suffix (OpRetain # t) prg \<and> k = bal prg - bal t - 1
    | TRetainStore v \<Rightarrow> v = c \<and> suffix (OpRetain # t) prg \<and> k = bal prg - bal t - 1
    | TRetainLog \<Rightarrow> suffix (OpRetain # t) prg \<and> k = bal prg - bal t
    | TRetainUnlock \<Rightarrow> suffix (OpRetain # t) prg \<and> k = bal prg - bal t
    | TReleaseLoad \<Rightarrow> suffix (OpRelease # t) prg \<and> k = bal prg - bal t + 1
    | TReleaseStore v \<Rightarrow> v = c \<and> suffix (OpRelease # t) prg \<and> k = bal prg - bal t + 1
    | TReleaseLog \<Rightarrow> suffix (OpRelease # t) prg \<and> k = bal prg - bal t
    | TReleaseTest \<Rightarrow> suffix (OpRelease # t) prg \<and> k = bal prg - bal t
    | TReleaseUnlock \<Rightarrow> suffix (OpRelease # t) prg \<and> k = bal prg - bal t
    | TReleaseDelete \<Rightarrow> suffix (OpRelease # t) prg \<and> k = bal prg - bal t
    | TFault e \<Rightarrow> False)"

text \<open>With the creator's reference held throughout, no thread reaches the deleting
  branch of \<open>Release\<close>.\<close>

definition tshape :: "int32 \<Rightarrow> rc_op list \<Rightarrow> tstate \<Rightarrow> bool" where
  "tshape c prg ts \<longleftrightarrow> never_overdraws 0 prg \<and> pc ts \<noteq> TReleaseDelete \<and> tpos c prg ts"

definition sys_inv :: "LockPolicy \<Rightarrow> nat \<Rightarrow> (tid \<Rightarrow> rc_op list) \<Rightarrow> sys \<Rightarrow> bool" where
  "sys_inv p n prog s \<longleftrightarrow> (\<exists>so l. obj (mem s) = Some so \<and> m_lockPolicy so = p
      \<and> m_refCounterLock so = Some l \<and> lock_for_policy p = Some (l\<lparr>lk_owner := None\<rparr>)
      \<and> (\<forall>i. lk_owner l = Some i \<longleftrightarrow> in_cs (pc (thr s i)))
      \<and> (\<forall>i<n. tshape (m_refCount so) (prog i) (thr s i))
      \<and> (\<forall>i. n \<le> i \<longrightarrow> thr s i = \<lparr>pc = TIdle, todo = [], net = 0\<rparr>)
      \<and> sint (m_refCount so) = 1 + (\<Sum>i<n. net (thr s i)))"

text \<open>The statements a thread has left to execute: a call of \<open>Retain\<close> is five
  steps of \<open>thread_step\<close> and a call of \<open>Release\<close> six; a faulted thread has none.\<close>

fun op_cost :: "rc_op \<Rightarrow> nat" where
  "op_cost OpRetain = 5"
| "op_cost OpRelease = 6"

fun pc_left :: "tpc \<Rightarrow> nat" where
  "pc_left TIdle = 0"
| "pc_left TRetainLoad = 4"
| "pc_left (TRetainStore c) = 3"
| "pc_left TRetainLog = 2"
| "pc_left TRetainUnlock = 1"
| "pc_left TReleaseLoad = 5"
| "pc_left (TReleaseStore c) = 4"
| "pc_left TReleaseLog = 3"
| "pc_left TReleaseTest = 2"
| "pc_left TReleaseUnlock = 1"
| "pc_left TReleaseDelete = 1"
| "pc_left (TFault e) = 0"

definition thread_left :: "tstate \<Rightarrow> nat" where
  "thread_left ts = (case pc ts of TFault e \<Rightarrow> 0 | p \<Rightarrow> pc_left p + sum_list (map op_cost (todo ts)))"

definition steps_left :: "nat \<Rightarrow> sys \<Rightarrow> nat" where
  "steps_left n s = (\<Sum>i<n. thread_left (thr s i))"

definition idle_from :: "nat \<Rightarrow> sys \<Rightarrow> bool" where
  "idle_from n s \<longleftrightarrow> (\<forall>i. n \<le> i \<longrightarrow> thr s i = \<lparr>pc = TIdle, todo = [], net = 0\<rparr>)"

subsection \<open>Schedules, sums and the invariant\<close>

lemmas sched_simps = init_sys_def init_prog_def SmartObject_ctor_def thread_do_def step_simps Let_def new_lock_def
  lock_held_def lock_release_def put_obj_def all_done_def

lemma run_sched_reach: "reach s0 s \<Longrightarrow> run_sched sched s = Some s' \<Longrightarrow> reach s0 s'"
proof (induction sched arbitrary: s)
  case Nil
  then show ?case by simp
next
  case (Cons i sched)
  then obtain s1 where "thread_step i s = Some s1" "run_sched sched s1 = Some s'"
    by (auto split: option.splits)
  then show ?case using Cons.IH Cons.prems(1) by (blast intro: reach.step sys_step.step)
qed

lemma bal_append [simp]: "bal (xs @ ys) = bal xs + bal ys"
  by (induction xs rule: bal.induct) simp_all

lemma never_overdraws_append:
  "never_overdraws k (xs @ ys) \<Longrightarrow> never_overdraws (k + bal xs) ys"
  by (induction k xs rule: never_overdraws.induct) (simp_all add: algebra_simps)

lemma never_overdraws_nonneg: "never_overdraws k xs \<Longrightarrow> 0 \<le> k"
  by (cases xs rule: bal.cases) simp_all

lemma never_overdraws_suffix:
  assumes "never_overdraws 0 prg" "suffix t prg"
  shows "0 \<le> bal prg - bal t"
proof -
  obtain d where "prg = d @ t" using assms(2) by (auto simp: suffix_def)
  then show ?thesis using never_overdraws_nonneg [OF never_overdraws_append [of 0 d t]] assms(1) by simp
qed

lemma bal_le_count: "bal xs \<le> int (count_list xs OpRetain)"
  by (induction xs rule: bal.induct) simp_all

lemma suffix_bal_le:
  assumes "suffix t prg"
  shows "bal prg - bal t \<le> int (count_list prg OpRetain)"
proof -
  obtain d where "prg = d @ t" using assms by (auto simp: suffix_def)
  moreover have "bal t \<ge> - int (count_list t OpRelease)" by (induction t rule: bal.induct) simp_all
  ultimately show ?thesis using bal_le_count [of d] by simp
qed

lemma tshape_net: "tshape c prg ts \<Longrightarrow> 0 \<le> net ts \<and> net ts \<le> int (count_list prg OpRetain)"
  unfolding tshape_def tpos_def Let_def
  by (cases "pc ts") (auto dest: never_overdraws_suffix suffix_bal_le suffix_ConsD)

lemma tshape_other: "\<not> in_cs (pc ts) \<Longrightarrow> tshape c prg ts = tshape c' prg ts"
  by (cases "pc ts") (simp_all add: tshape_def tpos_def)

lemma sum_upd_int:
  fixes f :: "'a \<Rightarrow> int" and g :: "nat \<Rightarrow> 'a"
  assumes "i < n"
  shows "(\<Sum>j<n. f ((g(i := x)) j)) = (\<Sum>j<n. f (g j)) - f (g i) + f x"
proof -
  have fin: "finite {..<n}" by simp
  have "(\<Sum>j<n. f ((g(i := x)) j)) = f x + (\<Sum>j\<in>{..<n} - {i}. f (g j))"
    using assms by (simp add: sum.remove [OF fin, of i])
  moreover have "(\<Sum>j<n. f (g j)) = f (g i) + (\<Sum>j\<in>{..<n} - {i}. f (g j))"
    using assms by (simp add: sum.remove [OF fin, of i])
  ultimately show ?thesis by simp
qed

lemma sum_net_bounds:
  assumes "\<forall>i<n. tshape c (prog i) (thr s i)"
  shows "0 \<le> (\<Sum>i<n. net (thr s i)) \<and> (\<Sum>i<n. net (thr s i)) \<le> int (total_retains n prog)"
proof -
  have "(\<Sum>i<n. net (thr s i)) \<le> (\<Sum>i<n. int (count_list (prog i) OpRetain))"
    by (rule sum_mono) (use assms tshape_net in blast)
  moreover have "0 \<le> (\<Sum>i<n. net (thr s i))"
    by (rule sum_nonneg) (use assms tshape_net in blast)
  ultimately show ?thesis by (simp add: total_retains_def)
qed

lemma lock_for_policy_excludes:
  "lock_for_policy p = Some l \<Longrightarrow> p \<noteq> LOCK_POLICY_NONE \<Longrightarrow> excludes (lk_class l)"
  by (cases p) (auto simp: new_lock_def)

lemma sys_invD:
  assumes "sys_inv p n prog s"
  obtains so l where "obj (mem s) = Some so" "m_lockPolicy so = p" "m_refCounterLock so = Some l"
    "lock_for_policy p = Some (l\<lparr>lk_owner := None\<rparr>)"
    "\<forall>j. lk_owner l = Some j \<longleftrightarrow> in_cs (pc (thr s j))" "\<forall>j<n. tshape (m_refCount so) (prog j) (thr s j)"
    "\<forall>j. n \<le> j \<longrightarrow> thr s j = \<lparr>pc = TIdle, todo = [], net = 0\<rparr>"
    "sint (m_refCount so) = 1 + (\<Sum>j<n. net (thr s j))"
  using assms unfolding sys_inv_def by blast

lemma sys_inv_update:
  assumes inv: "sys_inv p n prog s" and o: "obj (mem s) = Some so" and i: "i < n"
    and o': "obj (mem s') = Some so'" and pol': "m_lockPolicy so' = m_lockPolicy so"
    and lk': "m_refCounterLock so' = Some l'"
    and cls': "lock_for_policy p = Some (l'\<lparr>lk_owner := None\<rparr>)"
    and own': "\<forall>j. lk_owner l' = Some j \<longleftrightarrow> (if j = i then in_cs (pc ts') else in_cs (pc (thr s j)))"
    and t': "thr s' = (thr s)(i := ts')"
    and sh: "tshape (m_refCount so') (prog i) ts'"
    and others: "\<forall>j<n. j \<noteq> i \<longrightarrow> tshape (m_refCount so') (prog j) (thr s j)"
    and cnt: "sint (m_refCount so') = sint (m_refCount so) + (net ts' - net (thr s i))"
  shows "sys_inv p n prog s'"
proof -
  obtain so0 l0 where "obj (mem s) = Some so0" and pol: "m_lockPolicy so0 = p"
      and sum: "sint (m_refCount so0) = 1 + (\<Sum>j<n. net (thr s j))"
      and idle: "\<forall>j. n \<le> j \<longrightarrow> thr s j = \<lparr>pc = TIdle, todo = [], net = 0\<rparr>"
    using inv by (rule sys_invD)
  then have so0: "so0 = so" using o by simp
  have "sint (m_refCount so') = 1 + (\<Sum>j<n. net (thr s' j))"
    using sum so0 cnt t' sum_upd_int [OF i, of net "thr s" ts'] by simp
  moreover have "\<forall>j<n. tshape (m_refCount so') (prog j) (thr s' j)" using sh others t' by auto
  moreover have "\<forall>j. lk_owner l' = Some j \<longleftrightarrow> in_cs (pc (thr s' j))" using own' t' by auto
  moreover have "\<forall>j. n \<le> j \<longrightarrow> thr s' j = \<lparr>pc = TIdle, todo = [], net = 0\<rparr>" using idle t' i by auto
  ultimately show ?thesis using o' pol' pol so0 lk' cls' unfolding sys_inv_def by blast
qed

lemma others_shape:
  "\<forall>j. lk_owner l = Some j \<longleftrightarrow> in_cs (pc (thr s j)) \<Longrightarrow> lk_owner l = Some i \<Longrightarrow>
   \<forall>j<n. tshape c (prog j) (thr s j) \<Longrightarrow> \<forall>j<n. j \<noteq> i \<longrightarrow> tshape c' (prog j) (thr s j)"
  by (metis option.inject tshape_other)

lemma sys_inv_locked_step:
  assumes inv: "sys_inv p n prog s" and o: "obj (mem s) = Some so" and lk: "m_refCounterLock so = Some l"
    and own: "\<forall>j. lk_owner l = Some j \<longleftrightarrow> in_cs (pc (thr s j))"
    and lp: "lock_for_policy p = Some (l\<lparr>lk_owner := None\<rparr>)"
    and sh: "\<forall>j<n. tshape (m_refCount so) (prog j) (thr s j)" and i: "i < n" and cs: "in_cs (pc (thr s i))"
    and o': "obj (mem s') = Some (so\<lparr>m_refCount := c'\<rparr>)" and t': "thr s' = (thr s)(i := ts')"
    and cs': "in_cs (pc ts')" and sh': "tshape c' (prog i) ts'"
    and cnt: "sint c' = sint (m_refCount so) + (net ts' - net (thr s i))"
  shows "sys_inv p n prog s'"
proof (rule sys_inv_update [OF inv o i o' _ _ lp _ t'])
  have owni: "lk_owner l = Some i" using own cs by simp
  show "\<forall>j. lk_owner l = Some j \<longleftrightarrow> (if j = i then in_cs (pc ts') else in_cs (pc (thr s j)))"
    using own owni cs' by auto
  show "\<forall>j<n. j \<noteq> i \<longrightarrow> tshape (m_refCount (so\<lparr>m_refCount := c'\<rparr>)) (prog j) (thr s j)"
    using others_shape [OF own owni sh] by simp
qed (use lk sh' cnt in simp_all)

lemma sys_inv_unlock_step:
  assumes inv: "sys_inv p n prog s" and o: "obj (mem s) = Some so" and lk: "m_refCounterLock so = Some l"
    and own: "\<forall>j. lk_owner l = Some j \<longleftrightarrow> in_cs (pc (thr s j))" and exc: "excludes (lk_class l)"
    and lp: "lock_for_policy p = Some (l\<lparr>lk_owner := None\<rparr>)"
    and sh: "\<forall>j<n. tshape (m_refCount so) (prog j) (thr s j)" and i: "i < n" and cs: "in_cs (pc (thr s i))"
    and o': "obj (mem s') = Some (so\<lparr>m_refCounterLock := Some (lock_release i l)\<rparr>)"
    and t': "thr s' = (thr s)(i := ts')"
    and cs': "\<not> in_cs (pc ts')" and sh': "tshape (m_refCount so) (prog i) ts'" and nt: "net ts' = net (thr s i)"
  shows "sys_inv p n prog s'"
proof -
  have owni: "lk_owner l = Some i" using own cs by simp
  have rel: "lock_release i l = l\<lparr>lk_owner := None\<rparr>" using owni exc by (simp add: lock_release_def)
  show ?thesis
  proof (rule sys_inv_update [OF inv o i o' _ _ _ _ t'])
    show "\<forall>j. lk_owner (lock_release i l) = Some j \<longleftrightarrow> (if j = i then in_cs (pc ts') else in_cs (pc (thr s j)))"
      using own owni rel cs' by auto
  qed (use lk lp rel sh sh' nt in simp_all)
qed

lemma sys_inv_acquire_step:
  assumes inv: "sys_inv p n prog s" and o: "obj (mem s) = Some so" and lk: "m_refCounterLock so = Some l"
    and own: "\<forall>j. lk_owner l = Some j \<longleftrightarrow> in_cs (pc (thr s j))" and exc: "excludes (lk_class l)"
    and lp: "lock_for_policy p = Some (l\<lparr>lk_owner := None\<rparr>)"
    and sh: "\<forall>j<n. tshape (m_refCount so) (prog j) (thr s j)" and i: "i < n" and free: "lk_owner l = None"
    and o': "obj (mem s') = Some (so\<lparr>m_refCounterLock := Some (lock_held i l)\<rparr>)"
    and t': "thr s' = (thr s)(i := ts')"
    and cs': "in_cs (pc ts')" and sh': "tshape (m_refCount so) (prog i) ts'" and nt: "net ts' = net (thr s i)"
  shows "sys_inv p n prog s'"
proof (rule sys_inv_update [OF inv o i o' _ _ _ _ t'])
  show "\<forall>j. lk_owner (lock_held i l) = Some j \<longleftrightarrow> (if j = i then in_cs (pc ts') else in_cs (pc (thr s j)))"
    using own free exc cs' by (auto simp: lk_owner_lock_held)
qed (use lk lp sh sh' nt in \<open>simp_all add: lock_held_def\<close>)

text \<open>A thread that holds the lock takes a step that keeps the invariant.\<close>

lemma sys_inv_step_cs:
  assumes inv: "sys_inv p n prog s" and ex: "p \<noteq> LOCK_POLICY_NONE"
    and bound: "int (total_retains n prog) < INT_MAX - 1"
    and st: "thread_step i s = Some s'" and i: "i < n" and cs: "in_cs (pc (thr s i))"
  shows "sys_inv p n prog s'"
proof -
  obtain so l where o: "obj (mem s) = Some so" and "m_lockPolicy so = p"
      and lk: "m_refCounterLock so = Some l" and lp: "lock_for_policy p = Some (l\<lparr>lk_owner := None\<rparr>)"
      and own: "\<forall>j. lk_owner l = Some j \<longleftrightarrow> in_cs (pc (thr s j))"
      and sh: "\<forall>j<n. tshape (m_refCount so) (prog j) (thr s j)"
      and "\<forall>j. n \<le> j \<longrightarrow> thr s j = \<lparr>pc = TIdle, todo = [], net = 0\<rparr>"
      and sum: "sint (m_refCount so) = 1 + (\<Sum>j<n. net (thr s j))"
    using inv by (rule sys_invD)
  have exc: "excludes (lk_class l)" using lock_for_policy_excludes [OF lp ex] by simp
  have lo: "1 \<le> sint (m_refCount so)" and hi: "sint (m_refCount so) < INT_MAX"
    using sum sum_net_bounds [OF sh] bound by simp_all
  note locked = sys_inv_locked_step [OF inv o lk own lp sh i cs]
  note unlock = sys_inv_unlock_step [OF inv o lk own exc lp sh i cs]
  let ?ts = "thr s i"
  have shi: "tshape (m_refCount so) (prog i) ?ts" using sh i by simp
  show ?thesis
  proof (cases "pc ?ts")
    case (TRetainStore v)
    with st o shi hi show ?thesis
      by (intro locked [of s' "m_refCount so + 1"])
         (auto simp: thread_do_def count_step_Some tshape_def tpos_def count_simps Let_def)
  next
    case (TReleaseStore v)
    with st o shi lo show ?thesis
      by (intro locked [of s' "m_refCount so - 1"])
         (auto simp: thread_do_def count_step_Some tshape_def tpos_def count_simps Let_def)
  next
    case TRetainUnlock
    with st o lk shi show ?thesis
      by (intro unlock) (auto simp: thread_do_def unlock_step_Some tshape_def tpos_def Let_def intro: suffix_ConsD)
  next
    case TReleaseUnlock
    with st o lk shi show ?thesis
      by (intro unlock) (auto simp: thread_do_def unlock_step_Some tshape_def tpos_def Let_def intro: suffix_ConsD)
  next
    case TReleaseTest
    with st o shi lo show ?thesis
      by (intro locked [of s' "m_refCount so"]) (auto simp: thread_do_def tshape_def tpos_def Let_def)
  next
    case TRetainLoad
    with st o shi show ?thesis
      by (intro locked [of s' "m_refCount so"]) (auto simp: thread_do_def tshape_def tpos_def Let_def)
  next
    case TReleaseLoad
    with st o shi show ?thesis
      by (intro locked [of s' "m_refCount so"]) (auto simp: thread_do_def tshape_def tpos_def Let_def)
  next
    case TRetainLog
    with st o shi show ?thesis
      by (intro locked [of s' "m_refCount so"]) (auto simp: thread_do_def log_step_Some tshape_def tpos_def Let_def)
  next
    case TReleaseLog
    with st o shi show ?thesis
      by (intro locked [of s' "m_refCount so"]) (auto simp: thread_do_def log_step_Some tshape_def tpos_def Let_def)
  qed (use cs shi in \<open>simp_all add: tshape_def tpos_def\<close>)
qed

text \<open>An idle thread acquires the lock, or cannot move.\<close>

lemma sys_inv_step_idle:
  assumes inv: "sys_inv p n prog s" and ex: "p \<noteq> LOCK_POLICY_NONE"
    and st: "thread_step i s = Some s'" and i: "i < n" and idle: "pc (thr s i) = TIdle"
  shows "sys_inv p n prog s'"
proof -
  obtain so l where o: "obj (mem s) = Some so" and "m_lockPolicy so = p"
      and lk: "m_refCounterLock so = Some l" and lp: "lock_for_policy p = Some (l\<lparr>lk_owner := None\<rparr>)"
      and own: "\<forall>j. lk_owner l = Some j \<longleftrightarrow> in_cs (pc (thr s j))"
      and sh: "\<forall>j<n. tshape (m_refCount so) (prog j) (thr s j)"
      and "\<forall>j. n \<le> j \<longrightarrow> thr s j = \<lparr>pc = TIdle, todo = [], net = 0\<rparr>"
      and "sint (m_refCount so) = 1 + (\<Sum>j<n. net (thr s j))"
    using inv by (rule sys_invD)
  have exc: "excludes (lk_class l)" using lock_for_policy_excludes [OF lp ex] by simp
  let ?ts = "thr s i"
  obtain op rest where td: "todo ?ts = op # rest" using st idle by (cases "todo ?ts") simp_all
  have free: "lk_owner l = None"
  proof (rule ccontr)
    assume "lk_owner l \<noteq> None"
    then obtain u where "lk_owner l = Some u" by blast
    then have "lock_step i (mem s) = Inl (LockBlocked, mem s)" using o lk exc by (rule_tac lock_step_blocked) simp_all
    then show False using st idle td by (simp add: thread_do_def)
  qed
  let ?ts' = "?ts\<lparr>pc := (case op of OpRetain \<Rightarrow> TRetainLoad | OpRelease \<Rightarrow> TReleaseLoad), todo := rest\<rparr>"
  have s': "s' = s\<lparr>mem := put_obj (so\<lparr>m_refCounterLock := Some (lock_held i l)\<rparr>) [EvLock i] (mem s),
                  thr := (thr s)(i := ?ts')\<rparr>"
    using st idle td o lk free by (simp add: thread_do_def lock_step_free)
  have shi: "tshape (m_refCount so) (prog i) ?ts" using sh i by simp
  have "tshape (m_refCount so) (prog i) ?ts'" using shi idle td by (cases op) (auto simp: tshape_def tpos_def Let_def)
  then show ?thesis using s'
    by (intro sys_inv_acquire_step [OF inv o lk own exc lp sh i free, of s' ?ts']) (cases op; simp)+
qed

lemma sys_inv_step:
  assumes inv: "sys_inv p n prog s" and ex: "p \<noteq> LOCK_POLICY_NONE"
    and bound: "int (total_retains n prog) < INT_MAX - 1"
    and st: "thread_step i s = Some s'"
  shows "sys_inv p n prog s'"
proof -
  have i: "i < n"
  proof (rule ccontr)
    assume "\<not> i < n"
    then have "thr s i = \<lparr>pc = TIdle, todo = [], net = 0\<rparr>" using inv by (auto simp: sys_inv_def)
    then have "thread_step i s = None" by simp
    with st show False by simp
  qed
  show ?thesis
  proof (cases "pc (thr s i)")
    case TIdle
    then show ?thesis using sys_inv_step_idle [OF inv ex st i] by simp
  next
    case (TFault e)
    then show ?thesis using st by simp
  qed (use sys_inv_step_cs [OF inv ex bound st i] in simp_all)
qed

subsection \<open>Every schedule is finite\<close>

lemma op_cost_pos [simp]: "0 < op_cost op"
  by (cases op) simp_all

lemma thread_step_left:
  assumes "thread_step i s = Some s'"
  shows "thr s' = (thr s)(i := thr s' i) \<and> thread_left (thr s' i) < thread_left (thr s i)"
  using assms
  by (cases "pc (thr s i)"; cases "todo (thr s i)")
     (auto simp: thread_do_def thread_left_def Let_def throw_step_Some
           split: sum.splits so_error.splits option.splits rc_op.splits if_splits)

lemma thread_step_steps_left:
  assumes st: "thread_step i s = Some s'" and idle: "idle_from n s"
  shows "steps_left n s' < steps_left n s \<and> idle_from n s'"
proof -
  have t: "thr s' = (thr s)(i := thr s' i)" and lt: "thread_left (thr s' i) < thread_left (thr s i)"
    using thread_step_left [OF st] by simp_all
  have i: "i < n"
  proof (rule ccontr)
    assume "\<not> i < n"
    then have "thr s i = \<lparr>pc = TIdle, todo = [], net = 0\<rparr>" using idle by (simp add: idle_from_def)
    then show False using st by simp
  qed
  have "steps_left n s' < steps_left n s"
    unfolding steps_left_def
  proof (rule sum_strict_mono_ex1)
    show "\<forall>j\<in>{..<n}. thread_left (thr s' j) \<le> thread_left (thr s j)"
      using t lt by (metis fun_upd_apply less_or_eq_imp_le)
    show "\<exists>j\<in>{..<n}. thread_left (thr s' j) < thread_left (thr s j)" using i lt by blast
  qed simp
  moreover have "idle_from n s'" using idle i t unfolding idle_from_def by (metis fun_upd_apply leD)
  ultimately show ?thesis by simp
qed

lemma init_prog_idle_from: "idle_from n (init_prog p n prog)"
  by (simp add: idle_from_def init_prog_def)

subsection \<open>The exclusive policies\<close>

lemma init_prog_inv:
  assumes "lock_for_policy p \<noteq> None" "\<forall>i<n. never_overdraws 0 (prog i)"
  shows "sys_inv p n prog (init_prog p n prog)"
proof -
  obtain l where l: "lock_for_policy p = Some l" using assms(1) by blast
  have free: "lk_owner l = None" using lock_for_policy_free [OF l] .
  have "(\<Sum>i<n. net (thr (init_prog p n prog) i)) = 0" by (simp add: init_prog_def)
  then show ?thesis using l free assms(2) unfolding sys_inv_def
    by (intro exI [of _ "\<lparr>m_refCount = 1, m_refCounterLock = Some l, m_lockPolicy = p\<rparr>"] exI [of _ l])
       (auto simp: init_prog_def SmartObject_ctor_def tshape_def tpos_def)
qed

lemma reach_sys_inv:
  assumes "reach (init_prog p n prog) s" "lock_for_policy p \<noteq> None" "p \<noteq> LOCK_POLICY_NONE"
    and "\<forall>i<n. never_overdraws 0 (prog i)" "int (total_retains n prog) < INT_MAX - 1"
  shows "sys_inv p n prog s"
  using assms(1)
proof (induction rule: reach.induct)
  case refl
  show ?case using init_prog_inv [OF assms(2,4)] .
next
  case (step s s')
  then show ?case using sys_inv_step assms(3,5) by (blast elim: sys_step.cases)
qed

lemma reach_init_sys_inv:
  assumes "reach (init_sys p n) s" "lock_for_policy p \<noteq> None" "p \<noteq> LOCK_POLICY_NONE" "int n < INT_MAX - 1"
  shows "sys_inv p n (\<lambda>i. [OpRetain, OpRelease]) s"
  using assms by (intro reach_sys_inv) (simp_all add: init_sys_def total_retains_def)

lemma sys_inv_thread:
  assumes "sys_inv p n prog s" "\<not> (pc (thr s i) = TIdle \<and> todo (thr s i) = [])"
  shows "i < n"
  using assms by (auto simp: sys_inv_def not_less [symmetric])

text \<open>
  C13: With the CRITICALSECTION or MUTEX policy, in every reachable state of any number of threads that each run a list of Retain and Release calls never releasing more than it retained (with fewer than INT_MAX - 1 Retains in all), at most one thread is between Lock() and Unlock().
\<close>

theorem mutual_exclusion:
  assumes "reach (init_prog p n prog) s" "lock_for_policy p \<noteq> None" "p \<noteq> LOCK_POLICY_NONE"
    and "\<forall>i<n. never_overdraws 0 (prog i)" "int (total_retains n prog) < INT_MAX - 1"
    and "in_cs (pc (thr s i))" "in_cs (pc (thr s j))"
  shows "i = j"
proof -
  obtain so l where o: "obj (mem s) = Some so" and "m_lockPolicy so = p" and lk: "m_refCounterLock so = Some l"
      and lp: "lock_for_policy p = Some (l\<lparr>lk_owner := None\<rparr>)"
      and own: "\<forall>k. lk_owner l = Some k \<longleftrightarrow> in_cs (pc (thr s k))"
      and sh: "\<forall>k<n. tshape (m_refCount so) (prog k) (thr s k)"
      and idle: "\<forall>k. n \<le> k \<longrightarrow> thr s k = \<lparr>pc = TIdle, todo = [], net = 0\<rparr>"
      and sum: "sint (m_refCount so) = 1 + (\<Sum>k<n. net (thr s k))"
    using reach_sys_inv [OF assms(1-5)] by (rule sys_invD)
  with assms(6,7) show ?thesis by (metis option.inject)
qed

theorem mutual_exclusion_witness:
  "\<exists>s. reach (init_prog LOCK_POLICY_MUTEX 2 (\<lambda>i. [OpRetain, OpRelease])) s
     \<and> in_cs (pc (thr s 0)) \<and> \<not> in_cs (pc (thr s 1))"
proof -
  have "\<exists>s. run_sched [0] (init_prog LOCK_POLICY_MUTEX 2 (\<lambda>i. [OpRetain, OpRelease])) = Some s
          \<and> in_cs (pc (thr s 0))"
    by (simp add: sched_simps)
  then obtain s where r: "run_sched [0] (init_prog LOCK_POLICY_MUTEX 2 (\<lambda>i. [OpRetain, OpRelease])) = Some s"
      and c: "in_cs (pc (thr s 0))"
    by blast
  have re: "reach (init_prog LOCK_POLICY_MUTEX 2 (\<lambda>i. [OpRetain, OpRelease])) s"
    using run_sched_reach [OF reach.refl r] .
  have "\<not> in_cs (pc (thr s 1))"
    using mutual_exclusion [OF re _ _ _ _ c, of 1] by (auto simp: total_retains_def numeral_2_eq_2)
  then show ?thesis using re c by blast
qed

lemma sys_inv_all_done:
  assumes inv: "sys_inv p n prog s" and fin: "all_done s"
  shows "\<exists>so. obj (mem s) = Some so \<and> sint (m_refCount so) = 1 + (\<Sum>i<n. bal (prog i))
           \<and> m_refCounterLock so = lock_for_policy p"
proof -
  obtain so l where o: "obj (mem s) = Some so" and "m_lockPolicy so = p" and lk: "m_refCounterLock so = Some l"
      and lp: "lock_for_policy p = Some (l\<lparr>lk_owner := None\<rparr>)"
      and own: "\<forall>k. lk_owner l = Some k \<longleftrightarrow> in_cs (pc (thr s k))"
      and sh: "\<forall>k<n. tshape (m_refCount so) (prog k) (thr s k)"
      and idle: "\<forall>k. n \<le> k \<longrightarrow> thr s k = \<lparr>pc = TIdle, todo = [], net = 0\<rparr>"
      and sum: "sint (m_refCount so) = 1 + (\<Sum>k<n. net (thr s k))"
    using inv by (rule sys_invD)
  have "net (thr s k) = bal (prog k)" if "k < n" for k
    using sh that fin by (auto simp: all_done_def tshape_def tpos_def)
  then have c: "sint (m_refCount so) = 1 + (\<Sum>i<n. bal (prog i))" using sum by simp
  have "lk_owner l = None" using own fin by (cases "lk_owner l") (auto simp: all_done_def)
  then have "l = l\<lparr>lk_owner := None\<rparr>" by simp
  then show ?thesis using o lk lp c by auto
qed

text \<open>
  C16: With an exclusive policy and threads running lists of calls that never release more than they retained, once every thread has finished, the object is alive, its count is 1 plus the balance of Retains over Releases of all the lists, and its lock is back in its initial state.
\<close>

theorem all_done_count_balance:
  assumes "reach (init_prog p n prog) s" "lock_for_policy p \<noteq> None" "p \<noteq> LOCK_POLICY_NONE"
    and "\<forall>i<n. never_overdraws 0 (prog i)" "int (total_retains n prog) < INT_MAX - 1"
    and "all_done s"
  shows "\<exists>so. obj (mem s) = Some so \<and> sint (m_refCount so) = 1 + (\<Sum>i<n. bal (prog i))
           \<and> m_refCounterLock so = lock_for_policy p"
  using sys_inv_all_done [OF reach_sys_inv [OF assms(1-5)] assms(6)] .

theorem all_done_count_balance_witness:
  "\<exists>s. reach (init_prog LOCK_POLICY_MUTEX 2 (\<lambda>i. if i = 0 then [OpRetain, OpRetain, OpRelease] else [OpRetain])) s
     \<and> all_done s \<and> (\<exists>so. obj (mem s) = Some so \<and> sint (m_refCount so) = 3)"
proof -
  let ?s0 = "init_prog LOCK_POLICY_MUTEX 2 (\<lambda>i. if i = 0 then [OpRetain, OpRetain, OpRelease] else [OpRetain])"
  have "\<exists>s. run_sched (replicate 16 0 @ replicate 5 1) ?s0 = Some s \<and> all_done s"
    by (simp add: sched_simps numeral_eq_Suc)
  then obtain s where r: "run_sched (replicate 16 0 @ replicate 5 1) ?s0 = Some s" and d: "all_done s"
    by blast
  have re: "reach ?s0 s" using run_sched_reach [OF reach.refl r] .
  have "\<exists>so. obj (mem s) = Some so \<and> sint (m_refCount so) = 3"
    using all_done_count_balance [OF re _ _ _ _ d] by (fastforce simp: total_retains_def numeral_2_eq_2 less_Suc_eq)
  then show ?thesis using re d by blast
qed

lemma thread_step_in_cs:
  assumes inv: "sys_inv p n prog s" and cs: "in_cs (pc (thr s i))"
  shows "\<exists>s'. thread_step i s = Some s'"
proof -
  obtain so l where o: "obj (mem s) = Some so" and "m_lockPolicy so = p" and lk: "m_refCounterLock so = Some l"
      and lp: "lock_for_policy p = Some (l\<lparr>lk_owner := None\<rparr>)"
      and own: "\<forall>k. lk_owner l = Some k \<longleftrightarrow> in_cs (pc (thr s k))"
      and sh: "\<forall>k<n. tshape (m_refCount so) (prog k) (thr s k)"
      and idle: "\<forall>k. n \<le> k \<longrightarrow> thr s k = \<lparr>pc = TIdle, todo = [], net = 0\<rparr>"
      and sum: "sint (m_refCount so) = 1 + (\<Sum>k<n. net (thr s k))"
    using inv by (rule sys_invD)
  have lo: "1 \<le> sint (m_refCount so)" using sum sum_net_bounds [OF sh] by simp
  have "i < n" by (rule sys_inv_thread [OF inv]) (use cs in auto)
  then have "tshape (m_refCount so) (prog i) (thr s i)" using sh by simp
  then show ?thesis using cs o lk lo
    by (cases "pc (thr s i)")
       (simp_all add: thread_do_def Let_def count_step_Some log_step_Some unlock_step_Some tshape_def tpos_def)
qed

lemma sys_inv_progress:
  assumes inv: "sys_inv p n prog s" and "\<not> all_done s"
  shows "\<exists>i s'. thread_step i s = Some s'"
proof -
  obtain so l where o: "obj (mem s) = Some so" and "m_lockPolicy so = p" and lk: "m_refCounterLock so = Some l"
      and lp: "lock_for_policy p = Some (l\<lparr>lk_owner := None\<rparr>)"
      and own: "\<forall>k. lk_owner l = Some k \<longleftrightarrow> in_cs (pc (thr s k))"
      and sh: "\<forall>k<n. tshape (m_refCount so) (prog k) (thr s k)"
      and idle: "\<forall>k. n \<le> k \<longrightarrow> thr s k = \<lparr>pc = TIdle, todo = [], net = 0\<rparr>"
      and sum: "sint (m_refCount so) = 1 + (\<Sum>k<n. net (thr s k))"
    using inv by (rule sys_invD)
  show ?thesis
  proof (cases "\<exists>i. in_cs (pc (thr s i))")
    case True
    then show ?thesis using thread_step_in_cs [OF inv] by blast
  next
    case False
    then have free: "lk_owner l = None" using own by (cases "lk_owner l") auto
    obtain i where nd: "\<not> (pc (thr s i) = TIdle \<and> todo (thr s i) = [])" using assms(2) by (auto simp: all_done_def)
    have "pc (thr s i) = TIdle"
    proof -
      have "\<not> in_cs (pc (thr s i))" using False by blast
      moreover have "tshape (m_refCount so) (prog i) (thr s i)" using sh sys_inv_thread [OF inv nd] by simp
      ultimately show ?thesis by (cases "pc (thr s i)") (auto simp: tshape_def tpos_def)
    qed
    then obtain op rest where idle: "pc (thr s i) = TIdle" "todo (thr s i) = op # rest"
      using nd by (cases "todo (thr s i)") auto
    then have "\<exists>s'. thread_step i s = Some s'" using o lk free by (simp add: thread_do_def lock_step_free)
    then show ?thesis by blast
  qed
qed

text \<open>
  C14: With an exclusive policy and threads running lists of calls that never release more than they retained, a reachable state in which some thread still has work always has a thread that can take a step. The protocol never deadlocks.
\<close>

theorem deadlock_free:
  assumes "reach (init_prog p n prog) s" "lock_for_policy p \<noteq> None" "p \<noteq> LOCK_POLICY_NONE"
    and "\<forall>i<n. never_overdraws 0 (prog i)" "int (total_retains n prog) < INT_MAX - 1"
    and "\<not> all_done s"
  shows "\<exists>s'. sys_step s s'"
  using sys_inv_progress [OF reach_sys_inv [OF assms(1-5)] assms(6)] by (blast intro: sys_step.step)

theorem deadlock_free_witness:
  "\<exists>s'. sys_step (init_prog LOCK_POLICY_MUTEX 3 (\<lambda>i. [OpRetain, OpRelease])) s'"
proof -
  have "\<not> all_done (init_prog LOCK_POLICY_MUTEX 3 (\<lambda>i. [OpRetain, OpRelease]))"
    by (auto simp: all_done_def init_prog_def intro: exI [of _ 0])
  then show ?thesis
    using deadlock_free [OF reach.refl, of LOCK_POLICY_MUTEX 3 "\<lambda>i. [OpRetain, OpRelease]"]
    by (simp add: total_retains_def numeral_3_eq_3)
qed

text \<open>
  C17: With an exclusive policy and threads running lists of calls that never release more than they retained, no reachable state has a faulted thread: no call raises an exception or touches a freed object. The object stays alive and its count stays between 1 and 1 plus the number of Retains in all the lists.
\<close>

theorem reachable_no_fault:
  assumes "reach (init_prog p n prog) s" "lock_for_policy p \<noteq> None" "p \<noteq> LOCK_POLICY_NONE"
    and "\<forall>i<n. never_overdraws 0 (prog i)" "int (total_retains n prog) < INT_MAX - 1"
  shows "(\<forall>i e. pc (thr s i) \<noteq> TFault e)
         \<and> (\<exists>so. obj (mem s) = Some so \<and> 1 \<le> sint (m_refCount so)
                \<and> sint (m_refCount so) \<le> 1 + int (total_retains n prog))"
proof -
  have inv: "sys_inv p n prog s" using reach_sys_inv [OF assms] .
  obtain so l where o: "obj (mem s) = Some so" and "m_lockPolicy so = p" and lk: "m_refCounterLock so = Some l"
      and lp: "lock_for_policy p = Some (l\<lparr>lk_owner := None\<rparr>)"
      and own: "\<forall>k. lk_owner l = Some k \<longleftrightarrow> in_cs (pc (thr s k))"
      and sh: "\<forall>k<n. tshape (m_refCount so) (prog k) (thr s k)"
      and idle: "\<forall>k. n \<le> k \<longrightarrow> thr s k = \<lparr>pc = TIdle, todo = [], net = 0\<rparr>"
      and sum: "sint (m_refCount so) = 1 + (\<Sum>k<n. net (thr s k))"
    using inv by (rule sys_invD)
  have "pc (thr s i) \<noteq> TFault e" for i e
  proof (cases "i < n")
    case True
    then show ?thesis using sh by (cases "pc (thr s i)") (auto simp: tshape_def tpos_def)
  next
    case False
    then show ?thesis using idle by simp
  qed
  then show ?thesis using o sum sum_net_bounds [OF sh] by auto
qed

theorem reachable_no_fault_witness:
  "\<exists>s. reach (init_prog LOCK_POLICY_CRITICALSECTION 2 (\<lambda>i. [OpRetain, OpRetain, OpRelease, OpRelease])) s
     \<and> (\<forall>i e. pc (thr s i) \<noteq> TFault e) \<and> (\<exists>so. obj (mem s) = Some so \<and> sint (m_refCount so) \<le> 5)"
proof -
  let ?P = "\<lambda>i::nat. [OpRetain, OpRetain, OpRelease, OpRelease]"
  have "(\<forall>i e. pc (thr (init_prog LOCK_POLICY_CRITICALSECTION 2 ?P) i) \<noteq> TFault e)
        \<and> (\<exists>so. obj (mem (init_prog LOCK_POLICY_CRITICALSECTION 2 ?P)) = Some so \<and> 1 \<le> sint (m_refCount so)
               \<and> sint (m_refCount so) \<le> 1 + int (total_retains 2 ?P))"
    by (rule reachable_no_fault [OF reach.refl]) (simp_all add: total_retains_def)
  moreover have "total_retains 2 ?P = 4" by (simp add: total_retains_def)
  ultimately show ?thesis using reach.refl by fastforce
qed

lemma sys_inv_idle_from: "sys_inv p n prog s \<Longrightarrow> idle_from n s"
  unfolding sys_inv_def idle_from_def by blast

lemma sys_inv_completes:
  assumes "sys_inv p n prog s" "p \<noteq> LOCK_POLICY_NONE" "int (total_retains n prog) < INT_MAX - 1"
  shows "\<exists>sched s'. run_sched sched s = Some s' \<and> all_done s' \<and> sys_inv p n prog s'"
  using assms(1)
proof (induction "steps_left n s" arbitrary: s rule: less_induct)
  case less
  show ?case
  proof (cases "all_done s")
    case True
    then show ?thesis using less.prems by (intro exI [of _ "[]"]) simp
  next
    case False
    then obtain i s1 where st: "thread_step i s = Some s1" using sys_inv_progress [OF less.prems] by blast
    have inv1: "sys_inv p n prog s1" using sys_inv_step [OF less.prems assms(2,3) st] .
    have "steps_left n s1 < steps_left n s"
      using thread_step_steps_left [OF st sys_inv_idle_from [OF less.prems]] by simp
    then obtain sched s' where "run_sched sched s1 = Some s'" "all_done s'" "sys_inv p n prog s'"
      using less.hyps inv1 by blast
    then show ?thesis using st by (intro exI [of _ "i # sched"]) simp
  qed
qed

text \<open>
  C15: With an exclusive policy and threads running lists of calls that never release more than they retained, from every reachable state some continuation of the schedule lets every thread finish, and it ends with the object alive, its count at 1 plus the balance of all the lists and its lock back in its initial state. Together with deadlock freedom (C14), a run never gets stuck before it ends so.
\<close>

theorem eventually_all_done:
  assumes "reach (init_prog p n prog) s" "lock_for_policy p \<noteq> None" "p \<noteq> LOCK_POLICY_NONE"
    and "\<forall>i<n. never_overdraws 0 (prog i)" "int (total_retains n prog) < INT_MAX - 1"
  shows "\<exists>sched s'. run_sched sched s = Some s' \<and> all_done s'
           \<and> (\<exists>so. obj (mem s') = Some so \<and> sint (m_refCount so) = 1 + (\<Sum>i<n. bal (prog i))
                  \<and> m_refCounterLock so = lock_for_policy p)"
proof -
  obtain sched s' where "run_sched sched s = Some s'" "all_done s'" "sys_inv p n prog s'"
    using sys_inv_completes [OF reach_sys_inv [OF assms] assms(3,5)] by blast
  then show ?thesis using sys_inv_all_done by blast
qed

theorem eventually_all_done_witness:
  "\<exists>sched s'. run_sched sched (init_prog LOCK_POLICY_CRITICALSECTION 4 (\<lambda>i. [OpRetain, OpRelease])) = Some s'
     \<and> all_done s' \<and> (\<exists>so. obj (mem s') = Some so \<and> sint (m_refCount so) = 1)"
  using eventually_all_done [OF reach.refl, of LOCK_POLICY_CRITICALSECTION 4 "\<lambda>i. [OpRetain, OpRelease]"]
  by (auto simp: total_retains_def)

end
