(* ===== verification/Ownership.thy ===== *)
theory Ownership
  imports Threads
begin

text \<open>
  Concurrent owners that release the last reference (specification, sections 3 and 5:
  the count reaches 0 at most once, that transition is observed by exactly one caller,
  and only that caller destroys the object). Each thread starts out owning some of
  the object's references, as when the creator has retained the object once per
  reference it hands out, and runs a list of calls. The discipline of the
  specification is that a thread calls \<open>Retain\<close> or \<open>Release\<close> only while it holds
  a reference (\<open>holds\<close>). Under an exclusive policy the invariant \<open>oinv\<close> shows: no
  call ever faults, the object is destroyed only when every thread has finished, the
  \<open>Release\<close> that drops the last reference destroys it, and the trace frees it at
  most once.
\<close>

text \<open>A thread that owns \<open>k\<close> references may run the calls \<open>ops\<close>: every call is
  made while the thread owns at least one reference.\<close>

fun holds :: "int \<Rightarrow> rc_op list \<Rightarrow> bool" where
  "holds k [] = (0 \<le> k)"
| "holds k (OpRetain # ops) = (1 \<le> k \<and> holds (k + 1) ops)"
| "holds k (OpRelease # ops) = (1 \<le> k \<and> holds (k - 1) ops)"

text \<open>The shared object after its creator has built it and retained it so that the
  threads own \<open>own i\<close> references each (\<open>own_ctor_retains\<close>); thread \<open>i\<close> then runs
  \<open>prog i\<close>.\<close>

definition init_owned :: "LockPolicy \<Rightarrow> nat \<Rightarrow> (tid \<Rightarrow> nat) \<Rightarrow> (tid \<Rightarrow> rc_op list) \<Rightarrow> sys" where
  "init_owned p n own prog =
     \<lparr>mem = \<lparr>obj = Some \<lparr>m_refCount = of_nat (\<Sum>i<n. own i), m_refCounterLock = lock_for_policy p,
                         m_lockPolicy = p\<rparr>, trace = []\<rparr>,
      thr = (\<lambda>i. if i < n then \<lparr>pc = TIdle, todo = prog i, net = 0\<rparr>
                 else \<lparr>pc = TIdle, todo = [], net = 0\<rparr>)\<rparr>"

text \<open>The references a thread owns: those it started with, plus its stored increments,
  minus its stored decrements.\<close>

definition owned :: "(tid \<Rightarrow> nat) \<Rightarrow> sys \<Rightarrow> tid \<Rightarrow> int" where
  "owned own s i = int (own i) + net (thr s i)"

text \<open>The calls a thread still has to make visible in the count: its remaining calls,
  and the call whose store is still to come.\<close>

definition pending :: "tstate \<Rightarrow> rc_op list" where
  "pending ts = (case pc ts of
      TRetainLoad \<Rightarrow> OpRetain # todo ts | TRetainStore v \<Rightarrow> OpRetain # todo ts
    | TReleaseLoad \<Rightarrow> OpRelease # todo ts | TReleaseStore v \<Rightarrow> OpRelease # todo ts
    | _ \<Rightarrow> todo ts)"

text \<open>The positions of the thread that has just stored 0 into the count.\<close>

fun zero_pos :: "tpc \<Rightarrow> bool" where
  "zero_pos TReleaseLog = True"
| "zero_pos TReleaseTest = True"
| "zero_pos TReleaseDelete = True"
| "zero_pos _ = False"

text \<open>The object is alive: its lock is held exactly by the thread between \<open>Lock()\<close>
  and \<open>Unlock()\<close>, its count is the number of references the threads own, it is 0
  only right after the last \<open>Release\<close> stored it, and it has never been freed.\<close>

definition oalive :: "LockPolicy \<Rightarrow> nat \<Rightarrow> (tid \<Rightarrow> nat) \<Rightarrow> (tid \<Rightarrow> rc_op list) \<Rightarrow> sys
                      \<Rightarrow> SmartObject \<Rightarrow> lock_inst \<Rightarrow> bool" where
  "oalive p n own prog s so l \<longleftrightarrow> obj (mem s) = Some so \<and> m_lockPolicy so = p
     \<and> m_refCounterLock so = Some l \<and> lock_for_policy p = Some (l\<lparr>lk_owner := None\<rparr>)
     \<and> (\<forall>i. lk_owner l = Some i \<longleftrightarrow> in_cs (pc (thr s i)))
     \<and> (\<forall>i<n. tpos (m_refCount so) (prog i) (thr s i))
     \<and> sint (m_refCount so) = (\<Sum>i<n. owned own s i)
     \<and> (sint (m_refCount so) = 0 \<longrightarrow> (\<exists>i. zero_pos (pc (thr s i))))
     \<and> (\<forall>i. pc (thr s i) = TReleaseDelete \<longrightarrow> sint (m_refCount so) = 0)
     \<and> count_list (trace (mem s)) EvFreeObject = 0"

text \<open>The object has been destroyed: every thread has finished, each having released
  all the references it owned, and the trace frees the object exactly once.\<close>

definition odead :: "nat \<Rightarrow> (tid \<Rightarrow> nat) \<Rightarrow> (tid \<Rightarrow> rc_op list) \<Rightarrow> sys \<Rightarrow> bool" where
  "odead n own prog s \<longleftrightarrow> obj (mem s) = None \<and> all_done s \<and> (\<forall>i<n. int (own i) + bal (prog i) = 0)
     \<and> count_list (trace (mem s)) EvFreeObject = 1"

definition oinv :: "LockPolicy \<Rightarrow> nat \<Rightarrow> (tid \<Rightarrow> nat) \<Rightarrow> (tid \<Rightarrow> rc_op list) \<Rightarrow> sys \<Rightarrow> bool" where
  "oinv p n own prog s \<longleftrightarrow> (\<forall>i<n. holds (int (own i)) (prog i)) \<and> idle_from n s
     \<and> ((\<exists>so l. oalive p n own prog s so l) \<or> odead n own prog s)"

subsection \<open>The ownership discipline\<close>

lemma holds_nonneg: "holds k xs \<Longrightarrow> 0 \<le> k"
  by (cases xs rule: bal.cases) simp_all

lemma holds_append: "holds k (xs @ ys) \<Longrightarrow> holds (k + bal xs) ys"
  by (induction k xs rule: holds.induct) (simp_all add: algebra_simps)

lemma holds_zero: "holds 0 xs \<longleftrightarrow> xs = []"
  by (cases xs rule: bal.cases) simp_all

lemma holds_suffix:
  assumes "holds k prg" "suffix t prg"
  shows "holds (k + bal prg - bal t) t"
proof -
  obtain d where "prg = d @ t" using assms(2) by (auto simp: suffix_def)
  then show ?thesis using holds_append [of k d t] assms(1) by simp
qed

lemma tpos_pending:
  "tpos c prg ts \<Longrightarrow> suffix (pending ts) prg \<and> net ts = bal prg - bal (pending ts)"
  by (cases "pc ts") (auto simp: tpos_def pending_def Let_def dest: suffix_ConsD)

lemma pending_Nil: "pending ts = [] \<Longrightarrow> todo ts = []"
  by (cases "pc ts") (simp_all add: pending_def)

text \<open>What a thread's position implies about the references it owns.\<close>

lemma tpos_owned:
  assumes "holds k prg" "tpos c prg ts"
  shows "0 \<le> k + net ts \<and> k + net ts \<le> k + int (count_list prg OpRetain)
         \<and> (k + net ts = 0 \<longrightarrow> pending ts = [])"
proof -
  have sfx: "suffix (pending ts) prg" and nt: "net ts = bal prg - bal (pending ts)"
    using tpos_pending [OF assms(2)] by simp_all
  have eq: "k + net ts = k + bal prg - bal (pending ts)" using nt by simp
  have h: "holds (k + net ts) (pending ts)" unfolding eq by (rule holds_suffix [OF assms(1) sfx])
  show ?thesis using holds_nonneg [OF h] suffix_bal_le [OF sfx] nt h by (auto simp: holds_zero)
qed

subsection \<open>The invariant, one step at a time\<close>

lemma owned_bounds:
  assumes "\<forall>i<n. holds (int (own i)) (prog i)" "\<forall>i<n. tpos c (prog i) (thr s i)" "i < n"
  shows "0 \<le> owned own s i \<and> owned own s i \<le> int (own i) + int (count_list (prog i) OpRetain)
         \<and> (owned own s i = 0 \<longrightarrow> pending (thr s i) = [])"
  using tpos_owned [of "int (own i)" "prog i" c "thr s i"] assms by (simp add: owned_def)

lemma sum_owned_bounds:
  assumes "\<forall>i<n. holds (int (own i)) (prog i)" "\<forall>i<n. tpos c (prog i) (thr s i)"
  shows "0 \<le> (\<Sum>i<n. owned own s i)
         \<and> (\<Sum>i<n. owned own s i) \<le> int (\<Sum>i<n. own i) + int (total_retains n prog)"
proof -
  have "(\<Sum>i<n. owned own s i) \<le> (\<Sum>i<n. int (own i) + int (count_list (prog i) OpRetain))"
    using owned_bounds [OF assms] by (intro sum_mono) simp
  moreover have "0 \<le> (\<Sum>i<n. owned own s i)"
    using owned_bounds [OF assms] by (intro sum_nonneg) simp
  ultimately show ?thesis by (simp add: total_retains_def sum.distrib)
qed

lemma owned_zero_all:
  assumes "\<forall>i<n. holds (int (own i)) (prog i)" "\<forall>i<n. tpos c (prog i) (thr s i)"
    and "(\<Sum>i<n. owned own s i) = 0" "j < n"
  shows "owned own s j = 0"
proof -
  have "\<forall>i\<in>{..<n}. 0 \<le> owned own s i" using owned_bounds [OF assms(1,2)] by simp
  then show ?thesis using assms(3,4) sum_nonneg_eq_0_iff [of "{..<n}" "owned own s"] by simp
qed

lemma sum_owned_upd:
  assumes "i < n" "thr s' = (thr s)(i := ts')"
  shows "(\<Sum>j<n. owned own s' j) = (\<Sum>j<n. owned own s j) + (net ts' - net (thr s i))"
proof -
  have "(\<Sum>j<n. net (thr s' j)) = (\<Sum>j<n. net (thr s j)) - net (thr s i) + net ts'"
    using sum_upd_int [OF assms(1), of net "thr s" ts'] assms(2) by simp
  then show ?thesis by (simp add: owned_def sum.distrib)
qed

lemma oaliveD:
  assumes "oalive p n own prog s so l"
  shows "obj (mem s) = Some so" "m_lockPolicy so = p" "m_refCounterLock so = Some l"
    "lock_for_policy p = Some (l\<lparr>lk_owner := None\<rparr>)"
    "\<forall>j. lk_owner l = Some j \<longleftrightarrow> in_cs (pc (thr s j))" "\<forall>j<n. tpos (m_refCount so) (prog j) (thr s j)"
    "sint (m_refCount so) = (\<Sum>j<n. owned own s j)"
    "sint (m_refCount so) = 0 \<longrightarrow> (\<exists>j. zero_pos (pc (thr s j)))"
    "\<forall>j. pc (thr s j) = TReleaseDelete \<longrightarrow> sint (m_refCount so) = 0"
    "count_list (trace (mem s)) EvFreeObject = 0"
  using assms unfolding oalive_def by blast+

lemma oalive_update:
  assumes al: "oalive p n own prog s so l" and i: "i < n"
    and o': "obj (mem s') = Some so'" and pol': "m_lockPolicy so' = m_lockPolicy so"
    and lk': "m_refCounterLock so' = Some l'" and lp': "lock_for_policy p = Some (l'\<lparr>lk_owner := None\<rparr>)"
    and own': "\<forall>j. lk_owner l' = Some j \<longleftrightarrow> in_cs (pc (thr s' j))"
    and t': "thr s' = (thr s)(i := ts')"
    and pos': "tpos (m_refCount so') (prog i) ts'"
    and others: "\<forall>j<n. j \<noteq> i \<longrightarrow> tpos (m_refCount so') (prog j) (thr s j)"
    and cnt: "sint (m_refCount so') = sint (m_refCount so) + (net ts' - net (thr s i))"
    and zero: "sint (m_refCount so') = 0 \<longrightarrow> zero_pos (pc ts')"
    and del: "\<forall>j. pc (thr s' j) = TReleaseDelete \<longrightarrow> sint (m_refCount so') = 0"
    and tr: "trace (mem s') = trace (mem s) @ evs" "EvFreeObject \<notin> set evs"
  shows "oalive p n own prog s' so' l'"
proof -
  have "sint (m_refCount so') = (\<Sum>j<n. owned own s' j)"
    using cnt oaliveD(7) [OF al] sum_owned_upd [OF i t'] by simp
  moreover have "\<forall>j<n. tpos (m_refCount so') (prog j) (thr s' j)" using pos' others t' by auto
  moreover have "sint (m_refCount so') = 0 \<longrightarrow> (\<exists>j. zero_pos (pc (thr s' j)))"
    using zero t' by (metis fun_upd_same)
  moreover have "count_list (trace (mem s')) EvFreeObject = 0"
    using tr oaliveD(10) [OF al] by (simp add: count_list_0_iff)
  ultimately show ?thesis using o' pol' oaliveD(2) [OF al] lk' lp' own' del unfolding oalive_def by blast
qed

lemma tpos_other: "\<not> in_cs (pc ts) \<Longrightarrow> tpos c prg ts = tpos c' prg ts"
  by (cases "pc ts") (simp_all add: tpos_def)

lemma zero_pos_in_cs: "zero_pos p \<Longrightarrow> in_cs p"
  by (cases p) simp_all

lemma oalive_cs_zero:
  assumes "oalive p n own prog s so l" "sint (m_refCount so) = 0" "in_cs (pc (thr s i))"
  shows "zero_pos (pc (thr s i))"
proof -
  obtain j where j: "zero_pos (pc (thr s j))" using oaliveD(8) [OF assms(1)] assms(2) by blast
  have "lk_owner l = Some j" "lk_owner l = Some i"
    using oaliveD(5) [OF assms(1)] zero_pos_in_cs [OF j] assms(3) by simp_all
  then show ?thesis using j by simp
qed

text \<open>A step of the thread that holds the lock and keeps it.\<close>

lemma ostep_locked:
  assumes al: "oalive p n own prog s so l" and i: "i < n" and cs: "in_cs (pc (thr s i))"
    and o': "obj (mem s') = Some (so\<lparr>m_refCount := cnew\<rparr>)" and t': "thr s' = (thr s)(i := ts')"
    and cs': "in_cs (pc ts')" and pos': "tpos cnew (prog i) ts'"
    and cnt: "sint cnew = sint (m_refCount so) + (net ts' - net (thr s i))"
    and zero: "sint cnew = 0 \<longrightarrow> zero_pos (pc ts')" and del: "pc ts' = TReleaseDelete \<longrightarrow> sint cnew = 0"
    and tr: "trace (mem s') = trace (mem s) @ evs" "EvFreeObject \<notin> set evs"
  shows "oalive p n own prog s' (so\<lparr>m_refCount := cnew\<rparr>) l"
proof -
  note D = oaliveD [OF al]
  have owni: "lk_owner l = Some i" using D(5) cs by simp
  have other: "\<not> in_cs (pc (thr s j))" if "j \<noteq> i" for j using D(5) owni that by (metis option.inject)
  show ?thesis
  proof (rule oalive_update [OF al i o' _ _ _ _ t' _ _ _ _ _ tr])
    show "\<forall>j. lk_owner l = Some j \<longleftrightarrow> in_cs (pc (thr s' j))" using owni cs' other t' by auto
    show "\<forall>j<n. j \<noteq> i \<longrightarrow> tpos (m_refCount (so\<lparr>m_refCount := cnew\<rparr>)) (prog j) (thr s j)"
    proof (intro allI impI)
      fix j assume "j < n" "j \<noteq> i"
      then show "tpos (m_refCount (so\<lparr>m_refCount := cnew\<rparr>)) (prog j) (thr s j)"
        using D(6) tpos_other [OF other [OF \<open>j \<noteq> i\<close>], of "m_refCount so" "prog j" cnew] by simp
    qed
    show "\<forall>j. pc (thr s' j) = TReleaseDelete \<longrightarrow> sint (m_refCount (so\<lparr>m_refCount := cnew\<rparr>)) = 0"
    proof (intro allI impI)
      fix j assume dj: "pc (thr s' j) = TReleaseDelete"
      show "sint (m_refCount (so\<lparr>m_refCount := cnew\<rparr>)) = 0"
      proof (cases "j = i")
        case True
        then show ?thesis using dj del t' by simp
      next
        case False
        then show ?thesis using dj other [OF False] t' by simp
      qed
    qed
  qed (use D pos' cnt zero in simp_all)
qed

text \<open>The lock holder's \<open>Unlock()\<close>, away from the zero crossing.\<close>

lemma ostep_unlock:
  assumes al: "oalive p n own prog s so l" and i: "i < n" and cs: "in_cs (pc (thr s i))"
    and exc: "excludes (lk_class l)" and nz: "\<not> zero_pos (pc (thr s i))"
    and o': "obj (mem s') = Some (so\<lparr>m_refCounterLock := Some (lock_release i l)\<rparr>)"
    and t': "thr s' = (thr s)(i := ts')" and cs': "\<not> in_cs (pc ts')"
    and pos': "tpos (m_refCount so) (prog i) ts'" and nt: "net ts' = net (thr s i)"
    and tr: "trace (mem s') = trace (mem s) @ evs" "EvFreeObject \<notin> set evs"
  shows "oalive p n own prog s' (so\<lparr>m_refCounterLock := Some (lock_release i l)\<rparr>) (l\<lparr>lk_owner := None\<rparr>)"
proof -
  note D = oaliveD [OF al]
  have owni: "lk_owner l = Some i" using D(5) cs by simp
  have rel: "lock_release i l = l\<lparr>lk_owner := None\<rparr>" using owni exc by (simp add: lock_release_def)
  have other: "\<not> in_cs (pc (thr s j))" if "j \<noteq> i" for j using D(5) owni that by (metis option.inject)
  have nz0: "sint (m_refCount so) \<noteq> 0" using oalive_cs_zero [OF al _ cs] nz by blast
  have nodel: "pc (thr s' j) \<noteq> TReleaseDelete" for j
    using cs' other [of j] t' by (cases "j = i") auto
  show ?thesis
  proof (rule oalive_update [OF al i o' _ _ _ _ t' _ _ _ _ _ tr])
    show "\<forall>j. lk_owner (l\<lparr>lk_owner := None\<rparr>) = Some j \<longleftrightarrow> in_cs (pc (thr s' j))" using cs' other t' by auto
    show "\<forall>j<n. j \<noteq> i \<longrightarrow> tpos (m_refCount (so\<lparr>m_refCounterLock := Some (lock_release i l)\<rparr>)) (prog j) (thr s j)"
      using D(6) by simp
  qed (use D rel pos' nt nz0 nodel in simp_all)
qed

text \<open>An idle thread's \<open>Lock()\<close> on the free lock.\<close>

lemma ostep_acquire:
  assumes al: "oalive p n own prog s so l" and i: "i < n" and exc: "excludes (lk_class l)"
    and free: "lk_owner l = None"
    and o': "obj (mem s') = Some (so\<lparr>m_refCounterLock := Some (lock_held i l)\<rparr>)"
    and t': "thr s' = (thr s)(i := ts')" and cs': "in_cs (pc ts')" and nzp: "\<not> zero_pos (pc ts')"
    and pos': "tpos (m_refCount so) (prog i) ts'" and nt: "net ts' = net (thr s i)"
    and tr: "trace (mem s') = trace (mem s) @ evs" "EvFreeObject \<notin> set evs"
  shows "oalive p n own prog s' (so\<lparr>m_refCounterLock := Some (lock_held i l)\<rparr>) (lock_held i l)"
proof -
  note D = oaliveD [OF al]
  have nocs: "\<not> in_cs (pc (thr s j))" for j using D(5) free by auto
  have nz0: "sint (m_refCount so) \<noteq> 0" using D(8) nocs zero_pos_in_cs by blast
  have nd': "pc ts' \<noteq> TReleaseDelete" using nzp by auto
  have nodel: "pc (thr s' j) \<noteq> TReleaseDelete" for j
    using nd' nocs [of j] t' by (cases "j = i") auto
  show ?thesis
  proof (rule oalive_update [OF al i o' _ _ _ _ t' _ _ _ _ _ tr])
    show "\<forall>j. lk_owner (lock_held i l) = Some j \<longleftrightarrow> in_cs (pc (thr s' j))"
      using free exc cs' nocs t' by (auto simp: lk_owner_lock_held)
  qed (use D pos' nt nz0 nodel in \<open>simp_all add: lock_held_def\<close>)
qed

lemma oalive_ex: "oalive p n own prog s so l \<Longrightarrow> \<exists>so' l'. oalive p n own prog s so' l'"
  by blast

text \<open>A step of the lock holder, before the deleting branch.\<close>

lemma ostep_cs:
  assumes wf: "\<forall>i<n. holds (int (own i)) (prog i)" and al: "oalive p n own prog s so l"
    and ex: "p \<noteq> LOCK_POLICY_NONE"
    and bound: "int (\<Sum>i<n. own i) + int (total_retains n prog) < INT_MAX"
    and st: "thread_step i s = Some s'" and i: "i < n" and cs: "in_cs (pc (thr s i))"
    and nd: "pc (thr s i) \<noteq> TReleaseDelete"
  shows "\<exists>so' l'. oalive p n own prog s' so' l'"
proof -
  note D = oaliveD [OF al]
  have exc: "excludes (lk_class l)" using lock_for_policy_excludes [OF D(4) ex] by simp
  have lo: "0 \<le> sint (m_refCount so)" and hi: "sint (m_refCount so) < INT_MAX"
    using D(7) sum_owned_bounds [OF wf D(6)] bound by simp_all
  note locked = ostep_locked [OF al i cs]
  note unlock = ostep_unlock [OF al i cs exc]
  let ?ts = "thr s i"
  have posi: "tpos (m_refCount so) (prog i) ?ts" using D(6) i by simp
  have nzc: "sint (m_refCount so) \<noteq> 0" if "\<not> zero_pos (pc ?ts)"
    using oalive_cs_zero [OF al _ cs] that by blast
  let ?L = "\<lambda>c. so\<lparr>m_refCount := c\<rparr>"
  let ?U = "so\<lparr>m_refCounterLock := Some (lock_release i l)\<rparr>"
  show ?thesis
  proof (cases "pc ?ts")
    case (TRetainStore v)
    with st D(1) posi lo hi have "oalive p n own prog s' (?L (m_refCount so + 1)) l"
      by (intro locked [where cnew="m_refCount so + 1" and evs="[]"])
         (auto simp: thread_do_def count_step_Some tpos_def count_simps Let_def)
    then show ?thesis by blast
  next
    case (TReleaseStore v)
    with st D(1) posi lo have "oalive p n own prog s' (?L (m_refCount so - 1)) l"
      by (intro locked [where cnew="m_refCount so - 1" and evs="[]"])
         (auto simp: thread_do_def count_step_Some tpos_def count_simps Let_def)
    then show ?thesis by blast
  next
    case TRetainUnlock
    with st D(1,3) posi have "oalive p n own prog s' ?U (l\<lparr>lk_owner := None\<rparr>)"
      by (intro unlock [where evs="[EvUnlock i]"]) (auto simp: thread_do_def unlock_step_Some tpos_def Let_def intro: suffix_ConsD)
    then show ?thesis by blast
  next
    case TReleaseUnlock
    with st D(1,3) posi have "oalive p n own prog s' ?U (l\<lparr>lk_owner := None\<rparr>)"
      by (intro unlock [where evs="[EvUnlock i]"]) (auto simp: thread_do_def unlock_step_Some tpos_def Let_def intro: suffix_ConsD)
    then show ?thesis by blast
  next
    case TReleaseTest
    have "oalive p n own prog s' (?L (m_refCount so)) l"
    proof (cases "sint (m_refCount so) = 0")
      case True
      with TReleaseTest st D(1) posi show ?thesis
        by (intro locked [where cnew="m_refCount so" and evs="[]"]) (auto simp: thread_do_def tpos_def Let_def)
    next
      case False
      with TReleaseTest st D(1) posi lo show ?thesis
        by (intro locked [where cnew="m_refCount so" and evs="[]"]) (auto simp: thread_do_def tpos_def Let_def)
    qed
    then show ?thesis by blast
  next
    case TRetainLoad
    with st D(1) posi nzc have "oalive p n own prog s' (?L (m_refCount so)) l"
      by (intro locked [where cnew="m_refCount so" and evs="[]"]) (auto simp: thread_do_def tpos_def Let_def)
    then show ?thesis by blast
  next
    case TReleaseLoad
    with st D(1) posi nzc have "oalive p n own prog s' (?L (m_refCount so)) l"
      by (intro locked [where cnew="m_refCount so" and evs="[]"]) (auto simp: thread_do_def tpos_def Let_def)
    then show ?thesis by blast
  next
    case TRetainLog
    with st D(1) posi nzc have "oalive p n own prog s' (?L (m_refCount so)) l"
      by (intro locked [where cnew="m_refCount so" and evs="[EvLog Retained (sint (m_refCount so))]"])
         (auto simp: thread_do_def log_step_Some tpos_def Let_def)
    then show ?thesis by blast
  next
    case TReleaseLog
    with st D(1) posi have "oalive p n own prog s' (?L (m_refCount so)) l"
      by (intro locked [where cnew="m_refCount so" and evs="[EvLog Released (sint (m_refCount so))]"])
         (auto simp: thread_do_def log_step_Some tpos_def Let_def)
    then show ?thesis by blast
  qed (use cs nd in simp_all)
qed

text \<open>An idle thread starts a call: it acquires the free lock, or cannot move.\<close>

lemma ostep_idle:
  assumes al: "oalive p n own prog s so l" and ex: "p \<noteq> LOCK_POLICY_NONE"
    and st: "thread_step i s = Some s'" and i: "i < n" and idle: "pc (thr s i) = TIdle"
  shows "\<exists>so' l'. oalive p n own prog s' so' l'"
proof -
  note D = oaliveD [OF al]
  have exc: "excludes (lk_class l)" using lock_for_policy_excludes [OF D(4) ex] by simp
  let ?ts = "thr s i"
  obtain op rest where td: "todo ?ts = op # rest" using st idle by (cases "todo ?ts") simp_all
  have free: "lk_owner l = None"
  proof (rule ccontr)
    assume "lk_owner l \<noteq> None"
    then obtain u where "lk_owner l = Some u" by blast
    then have "lock_step i (mem s) = Inl (LockBlocked, mem s)"
      using D(1,3) exc by (rule_tac lock_step_blocked) simp_all
    then show False using st idle td by (simp add: thread_do_def)
  qed
  let ?ts' = "?ts\<lparr>pc := (case op of OpRetain \<Rightarrow> TRetainLoad | OpRelease \<Rightarrow> TReleaseLoad), todo := rest\<rparr>"
  have s': "s' = s\<lparr>mem := put_obj (so\<lparr>m_refCounterLock := Some (lock_held i l)\<rparr>) [EvLock i] (mem s),
                  thr := (thr s)(i := ?ts')\<rparr>"
    using st idle td D(1,3) free by (simp add: thread_do_def lock_step_free)
  have pos: "tpos (m_refCount so) (prog i) ?ts'"
  proof -
    have "tpos (m_refCount so) (prog i) ?ts" using D(6) i by simp
    then show ?thesis using idle td by (cases op) (simp_all add: tpos_def Let_def)
  qed
  have cs': "in_cs (pc ?ts') \<and> \<not> zero_pos (pc ?ts')" by (cases op) simp_all
  have "oalive p n own prog s' (so\<lparr>m_refCounterLock := Some (lock_held i l)\<rparr>) (lock_held i l)"
  proof (rule ostep_acquire [OF al i exc free, where evs="[EvLock i]"])
    show "thr s' = (thr s)(i := ?ts')" using s' by simp
  qed (use s' cs' pos in simp_all)
  then show ?thesis by blast
qed

text \<open>The zero branch of \<open>Release\<close> (lines 113--116): the count back to 1,
  \<open>Unlock()\<close>, then \<open>EP_DELETE this\<close>, on a lock that the deleting thread holds.\<close>

lemma delete_branch_eq:
  assumes "obj w = Some so" "m_refCounterLock so = Some l" "lk_owner l = Some i" "excludes (lk_class l)"
    and "sint (m_refCount so) = 0"
  shows "run_steps [count_step (\<lambda>c. c + 1), unlock_step i, delete_this i] w
           = Inr \<lparr>obj = None, trace = trace w @ [EvUnlock i, EvLock i, EvLog Deleted 0, EvUnlock i,
                                               EvDeleteLock, EvFreeObject]\<rparr>"
  using assms
  by (simp add: delete_this_def SmartObject_dtor_def step_simps lock_release_def lock_held_def put_obj_def)

text \<open>The thread at the zero crossing destroys the object, and every thread has
  then finished.\<close>

lemma ostep_delete:
  assumes wf: "\<forall>i<n. holds (int (own i)) (prog i)" and idl: "idle_from n s"
    and al: "oalive p n own prog s so l" and ex: "p \<noteq> LOCK_POLICY_NONE"
    and st: "thread_step i s = Some s'" and i: "i < n" and del: "pc (thr s i) = TReleaseDelete"
  shows "odead n own prog s'"
proof -
  note D = oaliveD [OF al]
  have exc: "excludes (lk_class l)" using lock_for_policy_excludes [OF D(4) ex] by simp
  have z: "sint (m_refCount so) = 0" using D(9) del by blast
  have owni: "lk_owner l = Some i" using D(5) del by simp
  have other: "\<not> in_cs (pc (thr s j))" if "j \<noteq> i" for j using D(5) owni that by (metis option.inject)
  have own0: "owned own s j = 0" if "j < n" for j using owned_zero_all [OF wf D(6)] D(7) z that by simp
  have pend0: "pending (thr s j) = []" if "j < n" for j using owned_bounds [OF wf D(6) that] own0 [OF that] by simp
  have fin: "todo (thr s j) = []" if "j < n" for j using pending_Nil [OF pend0 [OF that]] .
  let ?w = "\<lparr>obj = None, trace = trace (mem s) @ [EvUnlock i, EvLock i, EvLog Deleted 0, EvUnlock i,
                                                 EvDeleteLock, EvFreeObject]\<rparr>"
  have s': "s' = s\<lparr>mem := ?w, thr := (thr s)(i := thr s i\<lparr>pc := TIdle\<rparr>)\<rparr>"
    using st del delete_branch_eq [OF D(1,3) owni exc z] by (simp add: thread_do_def)
  have idle_j: "pc (thr s j) = TIdle" if "j < n" "j \<noteq> i" for j
    using other [OF that(2)] D(6) that(1) by (cases "pc (thr s j)") (auto simp: tpos_def)
  have "all_done s'"
    unfolding all_done_def
  proof
    fix j
    show "pc (thr s' j) = TIdle \<and> todo (thr s' j) = []"
    proof (cases "j < n")
      case True
      then show ?thesis using s' fin idle_j by (cases "j = i") auto
    next
      case False
      then show ?thesis using s' i idl by (auto simp: idle_from_def)
    qed
  qed
  moreover have "int (own j) + bal (prog j) = 0" if "j < n" for j
  proof -
    have "net (thr s j) = bal (prog j)"
      using tpos_pending [of _ "prog j" "thr s j"] D(6) that pend0 [OF that] by auto
    then show ?thesis using own0 [OF that] by (simp add: owned_def)
  qed
  moreover have "count_list (trace (mem s')) EvFreeObject = 1" using s' D(10) by simp
  ultimately show ?thesis using s' by (simp add: odead_def)
qed

lemma oinv_step:
  assumes inv: "oinv p n own prog s" and ex: "p \<noteq> LOCK_POLICY_NONE"
    and bound: "int (\<Sum>i<n. own i) + int (total_retains n prog) < INT_MAX"
    and st: "thread_step i s = Some s'"
  shows "oinv p n own prog s'"
proof -
  have wf: "\<forall>i<n. holds (int (own i)) (prog i)" and idl: "idle_from n s"
    using inv by (simp_all add: oinv_def)
  have idl': "idle_from n s'" using thread_step_steps_left [OF st idl] by simp
  have i: "i < n"
  proof (rule ccontr)
    assume "\<not> i < n"
    then have "thr s i = \<lparr>pc = TIdle, todo = [], net = 0\<rparr>" using idl by (simp add: idle_from_def)
    then show False using st by simp
  qed
  have "(\<exists>so' l'. oalive p n own prog s' so' l') \<or> odead n own prog s'"
  proof (cases "odead n own prog s")
    case True
    then have "pc (thr s i) = TIdle" "todo (thr s i) = []" by (simp_all add: odead_def all_done_def)
    then show ?thesis using st by simp
  next
    case False
    then obtain so l where al: "oalive p n own prog s so l" using inv by (auto simp: oinv_def)
    show ?thesis
    proof (cases "pc (thr s i)")
      case TIdle
      then show ?thesis using ostep_idle [OF al ex st i] by blast
    next
      case TReleaseDelete
      then show ?thesis using ostep_delete [OF wf idl al ex st i] by blast
    next
      case (TFault e)
      then show ?thesis using st by simp
    qed (use ostep_cs [OF wf al ex bound st i] in simp_all)
  qed
  then show ?thesis using wf idl' by (simp add: oinv_def)
qed

text \<open>The initial object of \<open>init_owned\<close> is what the constructor and \<open>N - 1\<close>
  further \<open>Retain\<close>s by its creator build, for \<open>N\<close> the references handed out.\<close>

lemma own_ctor_retains:
  assumes "lock_for_policy p \<noteq> None" "0 < N" "N < 2 ^ 31"
  shows "\<exists>w. run_steps (replicate (N - 1) (Retain t)) (SmartObject_ctor p) = Inr w
           \<and> obj w = Some \<lparr>m_refCount = of_nat N, m_refCounterLock = lock_for_policy p, m_lockPolicy = p\<rparr>"
proof -
  let ?so = "\<lparr>m_refCount = 1 :: int32, m_refCounterLock = lock_for_policy p, m_lockPolicy = p\<rparr>"
  have inv: "so_inv ?so" using ctor_inv [OF assms(1)] by (simp add: world_inv_def SmartObject_ctor_def)
  have "sint (m_refCount ?so) + int (N - 1) \<le> INT_MAX" using assms(2,3) by simp
  then obtain c evs where r: "run_steps (replicate (N - 1) (Retain t)) (SmartObject_ctor p)
        = Inr (put_obj (?so\<lparr>m_refCount := c\<rparr>) evs (SmartObject_ctor p))"
      and c: "sint c = 1 + int (N - 1)"
    using retain_n [OF inv, of "SmartObject_ctor p" "N - 1" t] by (auto simp: SmartObject_ctor_def)
  have "sint c = sint (of_nat N :: int32)" using c sint_of_nat_small [OF assms(3)] assms(2) by simp
  then have "c = of_nat N" by (simp add: signed_word_eqI)
  then show ?thesis using r by simp
qed

lemma init_owned_inv:
  assumes "lock_for_policy p \<noteq> None" "\<forall>i<n. holds (int (own i)) (prog i)" "0 < (\<Sum>i<n. own i)"
    and "int (\<Sum>i<n. own i) < INT_MAX"
  shows "oinv p n own prog (init_owned p n own prog)"
proof -
  obtain l where l: "lock_for_policy p = Some l" using assms(1) by blast
  have free: "lk_owner l = None" using lock_for_policy_free [OF l] .
  let ?s = "init_owned p n own prog"
  have c: "sint (of_nat (\<Sum>i<n. own i) :: int32) = int (\<Sum>i<n. own i)"
    using assms(4) by (intro sint_of_nat_small) (simp del: of_nat_sum)
  have sm: "(\<Sum>i<n. owned own ?s i) = (\<Sum>i<n. int (own i))" by (simp add: owned_def init_owned_def)
  have pos: "(\<Sum>i<n. int (own i)) \<noteq> 0" using assms(3) by (metis of_nat_0_less_iff of_nat_sum less_irrefl)
  have "oalive p n own prog ?s \<lparr>m_refCount = of_nat (\<Sum>i<n. own i), m_refCounterLock = Some l,
                                    m_lockPolicy = p\<rparr> l"
    using l free c pos sm unfolding oalive_def by (auto simp: init_owned_def tpos_def)
  moreover have "idle_from n ?s" by (simp add: idle_from_def init_owned_def)
  ultimately show ?thesis using assms(2) unfolding oinv_def by blast
qed

lemma reach_oinv:
  assumes "reach (init_owned p n own prog) s" "lock_for_policy p \<noteq> None" "p \<noteq> LOCK_POLICY_NONE"
    and "\<forall>i<n. holds (int (own i)) (prog i)" "0 < (\<Sum>i<n. own i)"
    and "int (\<Sum>i<n. own i) + int (total_retains n prog) < INT_MAX"
  shows "oinv p n own prog s"
  using assms(1)
proof (induction rule: reach.induct)
  case refl
  show ?case using init_owned_inv [OF assms(2,4,5)] assms(6) by simp
next
  case (step s s')
  then show ?case using oinv_step assms(3,6) by (blast elim: sys_step.cases)
qed

lemma oinv_wf: "oinv p n own prog s \<Longrightarrow> \<forall>i<n. holds (int (own i)) (prog i)"
  by (simp add: oinv_def)

lemma oinv_idle_from: "oinv p n own prog s \<Longrightarrow> idle_from n s"
  by (simp add: oinv_def)

text \<open>A thread in the middle of a call can always take its next step: only
  \<open>Lock()\<close> waits.\<close>

lemma thread_step_busy:
  assumes "in_cs (pc (thr s i))" "pc (thr s i) \<noteq> TReleaseDelete"
  shows "\<exists>s'. thread_step i s = Some s'"
  using assms
  by (cases "pc (thr s i)"; cases "obj (mem s)")
     (auto simp: Let_def thread_do_def count_step_def log_step_def unlock_step_def throw_step_def with_obj_def
           split: option.splits)

lemma oinv_progress:
  assumes inv: "oinv p n own prog s" and ex: "p \<noteq> LOCK_POLICY_NONE" and nd: "\<not> all_done s"
  shows "\<exists>i s'. thread_step i s = Some s'"
proof -
  obtain so l where al: "oalive p n own prog s so l"
    using inv nd by (auto simp: oinv_def odead_def)
  note D = oaliveD [OF al]
  have exc: "excludes (lk_class l)" using lock_for_policy_excludes [OF D(4) ex] by simp
  show ?thesis
  proof (cases "\<exists>i. in_cs (pc (thr s i))")
    case True
    then obtain i where cs: "in_cs (pc (thr s i))" by blast
    show ?thesis
    proof (cases "pc (thr s i) = TReleaseDelete")
      case True
      have ow: "lk_owner l = Some i" using D(5) cs by simp
      have z: "sint (m_refCount so) = 0" using D(9) True by blast
      have "\<exists>s'. thread_step i s = Some s'"
        using True delete_branch_eq [OF D(1,3) ow exc z] by (simp add: thread_do_def del: run_steps.simps)
      then show ?thesis by blast
    next
      case False
      then show ?thesis using thread_step_busy [OF cs] by blast
    qed
  next
    case False
    then have free: "lk_owner l = None" using D(5) by (cases "lk_owner l") auto
    obtain i where i: "\<not> (pc (thr s i) = TIdle \<and> todo (thr s i) = [])" using nd by (auto simp: all_done_def)
    have "i < n" using oinv_idle_from [OF inv] i by (auto simp: idle_from_def not_less [symmetric])
    then have tp: "tpos (m_refCount so) (prog i) (thr s i)" using D(6) by blast
    have nc: "\<not> in_cs (pc (thr s i))" using False by blast
    have "pc (thr s i) = TIdle"
      using tp nc by (cases "pc (thr s i)") (simp_all add: tpos_def)
    then obtain op rest where "pc (thr s i) = TIdle" "todo (thr s i) = op # rest"
      using i by (cases "todo (thr s i)") auto
    then have "\<exists>s'. thread_step i s = Some s'" using D(1,3) free by (simp add: thread_do_def lock_step_free)
    then show ?thesis by blast
  qed
qed

lemma oinv_completes:
  assumes "oinv p n own prog s" "p \<noteq> LOCK_POLICY_NONE"
    and "int (\<Sum>i<n. own i) + int (total_retains n prog) < INT_MAX"
  shows "\<exists>sched s'. run_sched sched s = Some s' \<and> all_done s' \<and> oinv p n own prog s'"
  using assms(1)
proof (induction "steps_left n s" arbitrary: s rule: less_induct)
  case less
  show ?case
  proof (cases "all_done s")
    case True
    then show ?thesis using less.prems by (intro exI [of _ "[]"]) simp
  next
    case False
    then obtain i s1 where st: "thread_step i s = Some s1" using oinv_progress [OF less.prems assms(2)] by blast
    have inv1: "oinv p n own prog s1" using oinv_step [OF less.prems assms(2,3) st] .
    have "steps_left n s1 < steps_left n s"
      using thread_step_steps_left [OF st oinv_idle_from [OF less.prems]] by simp
    then obtain sched s' where "run_sched sched s1 = Some s'" "all_done s'" "oinv p n own prog s'"
      using less.hyps inv1 by blast
    then show ?thesis using st by (intro exI [of _ "i # sched"]) simp
  qed
qed

text \<open>The final state: destroyed exactly when the threads' references sum to 0.\<close>

lemma oinv_all_done:
  assumes inv: "oinv p n own prog s" and fin: "all_done s"
  shows "(obj (mem s) = None \<longleftrightarrow> (\<Sum>i<n. int (own i) + bal (prog i)) = 0)
       \<and> (\<forall>so. obj (mem s) = Some so \<longrightarrow> sint (m_refCount so) = (\<Sum>i<n. int (own i) + bal (prog i)))
       \<and> count_list (trace (mem s)) EvFreeObject = (if obj (mem s) = None then 1 else 0)"
proof (cases "odead n own prog s")
  case True
  then show ?thesis by (simp add: odead_def)
next
  case False
  then obtain so l where al: "oalive p n own prog s so l" using inv by (auto simp: oinv_def)
  note D = oaliveD [OF al]
  have "net (thr s j) = bal (prog j)" if "j < n" for j
    using D(6) that fin by (auto simp: all_done_def tpos_def)
  then have c: "sint (m_refCount so) = (\<Sum>i<n. int (own i) + bal (prog i))"
    using D(7) by (simp add: owned_def)
  have "sint (m_refCount so) \<noteq> 0" using D(8) fin by (auto simp: all_done_def)
  then show ?thesis using c D(1,10) by simp
qed

lemma oinv_no_fault:
  assumes "oinv p n own prog s"
  shows "pc (thr s i) \<noteq> TFault e"
proof (cases "odead n own prog s")
  case True
  then show ?thesis by (simp add: odead_def all_done_def)
next
  case False
  then obtain so l where al: "oalive p n own prog s so l" using assms by (auto simp: oinv_def)
  show ?thesis
  proof (cases "i < n")
    case True
    then show ?thesis using oaliveD(6) [OF al] by (fastforce simp: tpos_def)
  next
    case False
    then show ?thesis using oinv_idle_from [OF assms] by (simp add: idle_from_def)
  qed
qed

lemma oinv_freed:
  assumes "oinv p n own prog s" "obj (mem s) = None"
  shows "odead n own prog s"
  using assms by (auto simp: oinv_def oalive_def)

text \<open>
  C19: Several threads share one object, each starting with its own number of references (the count starts at their sum) and running its own list of Retain and Release calls, each made while the thread still owns a reference. With an exclusive policy and no wrap-around of the count, no reachable state has a faulted thread (no exception, no access to a freed object), the object is freed at most once, and it is freed only after every thread has finished and has given back every reference it held.
\<close>

theorem owners_safe:
  assumes "reach (init_owned p n own prog) s" "lock_for_policy p \<noteq> None" "p \<noteq> LOCK_POLICY_NONE"
    and "\<forall>i<n. holds (int (own i)) (prog i)" "0 < (\<Sum>i<n. own i)"
    and "int (\<Sum>i<n. own i) + int (total_retains n prog) < INT_MAX"
  shows "(\<forall>i e. pc (thr s i) \<noteq> TFault e) \<and> count_list (trace (mem s)) EvFreeObject \<le> 1
       \<and> (obj (mem s) = None \<longrightarrow> all_done s \<and> (\<forall>i<n. int (own i) + bal (prog i) = 0))"
proof -
  have inv: "oinv p n own prog s" using reach_oinv [OF assms] .
  have "count_list (trace (mem s)) EvFreeObject \<le> 1"
    using inv by (auto simp: oinv_def oalive_def odead_def)
  then show ?thesis using oinv_no_fault [OF inv] oinv_freed [OF inv] by (auto simp: odead_def)
qed

theorem owners_safe_witness:
  "\<exists>s. reach (init_owned LOCK_POLICY_MUTEX 2 (\<lambda>i. 1) (\<lambda>i. [OpRelease])) s
     \<and> obj (mem s) = None \<and> count_list (trace (mem s)) EvFreeObject = 1 \<and> (\<forall>i e. pc (thr s i) \<noteq> TFault e)"
proof -
  let ?s0 = "init_owned LOCK_POLICY_MUTEX 2 (\<lambda>i. 1) (\<lambda>i. [OpRelease])"
  have "\<exists>s. run_sched (replicate 6 0 @ replicate 6 1) ?s0 = Some s \<and> obj (mem s) = None
          \<and> count_list (trace (mem s)) EvFreeObject = 1"
    by (simp add: sched_simps init_owned_def numeral_eq_Suc delete_this_def SmartObject_dtor_def)
  then obtain s where r: "run_sched (replicate 6 0 @ replicate 6 1) ?s0 = Some s"
      and f: "obj (mem s) = None" "count_list (trace (mem s)) EvFreeObject = 1"
    by blast
  have re: "reach ?s0 s" using run_sched_reach [OF reach.refl r] .
  have "\<forall>i e. pc (thr s i) \<noteq> TFault e"
    using owners_safe [OF re] by (simp add: total_retains_def)
  then show ?thesis using re f by blast
qed

text \<open>
  C20: In the same setting, while the object is alive its count is exactly the sum of the references the threads own (the ones each started with plus the Retains minus the Releases whose store has happened), every thread owns a nonnegative number of them, and the object has not been freed.
\<close>

theorem owners_count_exact:
  assumes "reach (init_owned p n own prog) s" "lock_for_policy p \<noteq> None" "p \<noteq> LOCK_POLICY_NONE"
    and "\<forall>i<n. holds (int (own i)) (prog i)" "0 < (\<Sum>i<n. own i)"
    and "int (\<Sum>i<n. own i) + int (total_retains n prog) < INT_MAX"
    and "obj (mem s) = Some so"
  shows "sint (m_refCount so) = (\<Sum>i<n. owned own s i) \<and> (\<forall>i<n. 0 \<le> owned own s i)
       \<and> count_list (trace (mem s)) EvFreeObject = 0"
proof -
  have inv: "oinv p n own prog s" using reach_oinv [OF assms(1-6)] .
  then obtain so' l where al: "oalive p n own prog s so' l" using assms(7) by (auto simp: oinv_def odead_def)
  note D = oaliveD [OF al]
  have "so' = so" using D(1) assms(7) by simp
  moreover have "\<forall>i<n. 0 \<le> owned own s i" using owned_bounds [OF oinv_wf [OF inv] D(6)] by blast
  ultimately show ?thesis using D(7,10) by simp
qed

theorem owners_count_exact_witness:
  "\<exists>s so. reach (init_owned LOCK_POLICY_CRITICALSECTION 2 (\<lambda>i. 1) (\<lambda>i. [OpRetain, OpRelease])) s
     \<and> obj (mem s) = Some so \<and> sint (m_refCount so) = 3"
proof -
  let ?s0 = "init_owned LOCK_POLICY_CRITICALSECTION 2 (\<lambda>i. 1) (\<lambda>i. [OpRetain, OpRelease])"
  have "\<exists>s so. run_sched (replicate 5 0) ?s0 = Some s \<and> obj (mem s) = Some so
          \<and> (\<Sum>i<2. owned (\<lambda>i. 1) s i) = 3"
    by (simp add: sched_simps init_owned_def numeral_eq_Suc owned_def lessThan_Suc)
  then obtain s so where r: "run_sched (replicate 5 0) ?s0 = Some s" and o: "obj (mem s) = Some so"
      and sm: "(\<Sum>i<2. owned (\<lambda>i. 1) s i) = 3"
    by blast
  have re: "reach ?s0 s" using run_sched_reach [OF reach.refl r] .
  have "sint (m_refCount so) = (\<Sum>i<2. owned (\<lambda>i. 1) s i)"
    using owners_count_exact [OF re _ _ _ _ _ o] by (simp add: total_retains_def)
  then have "sint (m_refCount so) = 3" using sm by simp
  then show ?thesis using re o by auto
qed

text \<open>
  C21: In the same setting, from every reachable state some continuation of the schedule lets every thread finish. In the final state the object has been freed, exactly once, if and only if the threads' initial references plus their Retains minus their Releases sum to 0; otherwise it is alive with exactly that sum as its count.
\<close>

theorem owners_eventually_freed_iff:
  assumes "reach (init_owned p n own prog) s" "lock_for_policy p \<noteq> None" "p \<noteq> LOCK_POLICY_NONE"
    and "\<forall>i<n. holds (int (own i)) (prog i)" "0 < (\<Sum>i<n. own i)"
    and "int (\<Sum>i<n. own i) + int (total_retains n prog) < INT_MAX"
  shows "\<exists>sched s'. run_sched sched s = Some s' \<and> all_done s'
           \<and> (obj (mem s') = None \<longleftrightarrow> (\<Sum>i<n. int (own i) + bal (prog i)) = 0)
           \<and> (\<forall>so. obj (mem s') = Some so \<longrightarrow> sint (m_refCount so) = (\<Sum>i<n. int (own i) + bal (prog i)))
           \<and> count_list (trace (mem s')) EvFreeObject = (if obj (mem s') = None then 1 else 0)"
proof -
  obtain sched s' where "run_sched sched s = Some s'" "all_done s'" "oinv p n own prog s'"
    using oinv_completes [OF reach_oinv [OF assms] assms(3,6)] by blast
  then show ?thesis using oinv_all_done by blast
qed

theorem owners_eventually_freed_iff_witness:
  "\<exists>sched s'. run_sched sched (init_owned LOCK_POLICY_MUTEX 3 (\<lambda>i. 1) (\<lambda>i. [OpRetain, OpRelease, OpRelease])) = Some s'
     \<and> all_done s' \<and> obj (mem s') = None \<and> count_list (trace (mem s')) EvFreeObject = 1"
proof -
  let ?s0 = "init_owned LOCK_POLICY_MUTEX 3 (\<lambda>i. 1) (\<lambda>i. [OpRetain, OpRelease, OpRelease])"
  obtain sched s' where r: "run_sched sched ?s0 = Some s'" and d: "all_done s'"
      and f: "obj (mem s') = None \<longleftrightarrow> (\<Sum>i<3. int 1 + bal [OpRetain, OpRelease, OpRelease]) = 0"
      and c: "count_list (trace (mem s')) EvFreeObject = (if obj (mem s') = None then 1 else 0)"
    using owners_eventually_freed_iff [OF reach.refl, of LOCK_POLICY_MUTEX 3 "\<lambda>i. 1" "\<lambda>i. [OpRetain, OpRelease, OpRelease]"]
    by (auto simp: total_retains_def)
  have "obj (mem s') = None" using f by simp
  then show ?thesis using r d c by auto
qed

end
