(* ===== verification/Log_History.thy ===== *)
theory Log_History
  imports Ownership
begin

text \<open>
  The diagnostic log as a history of the contract. Every \<open>Retain\<close> and \<open>Release\<close>
  prints the count it has just stored (\<open>LOG_THIS_MSG\<close>, lines 99 and 110), and the
  destructor prints the count after its own decrement (line 188). Replaying the
  printed events against the contract of \<open>Refcount_Spec\<close> (\<open>log_ok\<close>) checks that
  every printed count is the contract's count after the printed call, in the order
  the lines were printed, and that the destructor runs on a destroyed object and
  prints 0. Under an exclusive policy the owners' runs of theory \<open>Ownership\<close> print
  such a history in every interleaving: the lock makes each call's store and print
  one atomic step of the contract.
\<close>

fun log_ok :: "rc_state \<Rightarrow> so_event list \<Rightarrow> rc_state option" where
  "log_ok s [] = Some s"
| "log_ok s (EvLog Retained c # evs) =
     (case rc_step s OpRetain of None \<Rightarrow> None
      | Some s' \<Rightarrow> if int (rc_count s') = c then log_ok s' evs else None)"
| "log_ok s (EvLog Released c # evs) =
     (case rc_step s OpRelease of None \<Rightarrow> None
      | Some s' \<Rightarrow> if int (rc_count s') = c then log_ok s' evs else None)"
| "log_ok s (EvLog Deleted c # evs) = (if s = Destroyed \<and> c = 0 then log_ok s evs else None)"
| "log_ok s (e # evs) = log_ok s evs"

text \<open>A thread that has stored its new count but not yet printed it.\<close>

fun log_gap :: "tpc \<Rightarrow> int" where
  "log_gap TRetainLog = 1"
| "log_gap TReleaseLog = -1"
| "log_gap _ = 0"

definition log_gaps :: "nat \<Rightarrow> sys \<Rightarrow> int" where
  "log_gaps n s = (\<Sum>i<n. log_gap (pc (thr s i)))"

text \<open>The contract state a count stands for.\<close>

definition log_state :: "int \<Rightarrow> rc_state" where
  "log_state c = (if c = 0 then Destroyed else Live (nat c))"

text \<open>The log replays to the state of the object, the prints still to come
  taken back.\<close>

definition linv :: "nat \<Rightarrow> nat \<Rightarrow> sys \<Rightarrow> bool" where
  "linv n N s \<longleftrightarrow> log_ok (Live N) (trace (mem s)) =
     Some (case obj (mem s) of None \<Rightarrow> Destroyed
           | Some so \<Rightarrow> log_state (sint (m_refCount so) - log_gaps n s))"

subsection \<open>Replaying a log\<close>

lemma log_ok_append:
  "log_ok s (xs @ ys) = (case log_ok s xs of None \<Rightarrow> None | Some s' \<Rightarrow> log_ok s' ys)"
  by (induction s xs rule: log_ok.induct) (simp_all split: option.splits)

lemma log_gap_in_cs: "log_gap p \<noteq> 0 \<Longrightarrow> in_cs p"
  by (cases p) simp_all

lemma log_gaps_single:
  assumes "i < n" "\<forall>j. j \<noteq> i \<longrightarrow> \<not> in_cs (pc (thr s j))"
  shows "log_gaps n s = log_gap (pc (thr s i))"
proof -
  have "log_gaps n s = (\<Sum>j<n. if j = i then log_gap (pc (thr s i)) else 0)"
    unfolding log_gaps_def using assms(2) log_gap_in_cs by (intro sum.cong) auto
  then show ?thesis using assms(1) by simp
qed

lemma log_gaps_none:
  assumes "\<forall>j. \<not> in_cs (pc (thr s j))"
  shows "log_gaps n s = 0"
  unfolding log_gaps_def using assms log_gap_in_cs by (intro sum.neutral) blast

lemma linv_next:
  assumes "linv n N s" "obj (mem s) = Some so" "trace (mem s') = trace (mem s) @ evs"
    and "log_ok (log_state (sint (m_refCount so) - log_gaps n s)) evs
         = Some (case obj (mem s') of None \<Rightarrow> Destroyed
                 | Some so' \<Rightarrow> log_state (sint (m_refCount so') - log_gaps n s'))"
  shows "linv n N s'"
  using assms by (simp add: linv_def log_ok_append)

lemma log_ok_silent: "\<forall>e\<in>set evs. \<forall>k c. e \<noteq> EvLog k c \<Longrightarrow> log_ok s evs = Some s"
  by (induction s evs rule: log_ok.induct) auto

lemma log_gaps_upd [simp]:
  "i < n \<Longrightarrow> log_gaps n (s\<lparr>mem := w, thr := (thr s)(i := ts)\<rparr>) = log_gaps n s - log_gap (pc (thr s i)) + log_gap (pc ts)"
  using sum_upd_int [of i n "\<lambda>t. log_gap (pc t)" "thr s" ts] by (simp add: log_gaps_def)

lemma log_gaps_upd_thr [simp]:
  "i < n \<Longrightarrow> log_gaps n (s\<lparr>thr := (thr s)(i := ts)\<rparr>) = log_gaps n s - log_gap (pc (thr s i)) + log_gap (pc ts)"
  using sum_upd_int [of i n "\<lambda>t. log_gap (pc t)" "thr s" ts] by (simp add: log_gaps_def)

lemma log_retain: "2 \<le> c \<Longrightarrow> log_ok (log_state (c - 1)) [EvLog Retained c] = Some (log_state c)"
  by (simp add: log_state_def nat_diff_distrib Suc_nat_eq_nat_zadd1)

lemma log_release: "0 \<le> c \<Longrightarrow> log_ok (log_state (c + 1)) [EvLog Released c] = Some (log_state c)"
  by (simp add: log_state_def nat_add_distrib)

lemma retain_log_count:
  assumes wf: "\<forall>i<n. holds (int (own i)) (prog i)" and al: "oalive p n own prog s so l"
    and i: "i < n" and lg: "pc (thr s i) = TRetainLog"
  shows "2 \<le> sint (m_refCount so)"
proof -
  note D = oaliveD [OF al]
  have sfx: "suffix (OpRetain # todo (thr s i)) (prog i)"
    and nt: "net (thr s i) = bal (prog i) - bal (todo (thr s i))"
    using D(6) i lg by (auto simp: tpos_def Let_def)
  have "holds (int (own i) + bal (prog i) - bal (OpRetain # todo (thr s i))) (OpRetain # todo (thr s i))"
    using holds_suffix [OF _ sfx] wf i by blast
  then have "2 \<le> owned own s i" using nt by (simp add: owned_def)
  moreover have "owned own s i \<le> (\<Sum>j<n. owned own s j)"
    using owned_bounds [OF wf D(6)] i by (intro member_le_sum) auto
  ultimately show ?thesis using D(7) by simp
qed

lemma linv_delete:
  "log_ok Destroyed [EvUnlock i, EvLock i, EvLog Deleted 0, EvUnlock i, EvDeleteLock, EvFreeObject] = Some Destroyed"
  by simp

text \<open>A step of the lock holder keeps the log a history of the contract.\<close>

lemma linv_step_cs:
  assumes wf: "\<forall>i<n. holds (int (own i)) (prog i)" and al: "oalive p n own prog s so l"
    and li: "linv n N s" and ex: "p \<noteq> LOCK_POLICY_NONE"
    and bound: "int (\<Sum>i<n. own i) + int (total_retains n prog) < INT_MAX"
    and st: "thread_step i s = Some s'" and i: "i < n" and cs: "in_cs (pc (thr s i))"
  shows "linv n N s'"
proof -
  note D = oaliveD [OF al]
  have exc: "excludes (lk_class l)" using lock_for_policy_excludes [OF D(4) ex] by simp
  have lo: "0 \<le> sint (m_refCount so)" and hi: "sint (m_refCount so) < INT_MAX"
    using D(7) sum_owned_bounds [OF wf D(6)] bound by simp_all
  have owni: "lk_owner l = Some i" using D(5) cs by simp
  have other: "\<forall>j. j \<noteq> i \<longrightarrow> \<not> in_cs (pc (thr s j))" using D(5) owni by (metis option.inject)
  have G: "log_gaps n s = log_gap (pc (thr s i))" using log_gaps_single [OF i other] .
  note nx = linv_next [OF li D(1)]
  have posi: "tpos (m_refCount so) (prog i) (thr s i)" using D(6) i by simp
  show ?thesis
  proof (cases "pc (thr s i)")
    case (TRetainStore v)
    with st D(1) posi hi G i show ?thesis
      by (intro nx [where evs="[]"]) (auto simp: thread_do_def count_step_Some tpos_def count_simps Let_def)
  next
    case (TReleaseStore v)
    with st D(1) posi lo G i show ?thesis
      by (intro nx [where evs="[]"]) (auto simp: thread_do_def count_step_Some tpos_def count_simps Let_def)
  next
    case TRetainLog
    have c2: "2 \<le> sint (m_refCount so)" using retain_log_count [OF wf al i TRetainLog] .
    with TRetainLog st D(1) G i show ?thesis
      by (intro nx [where evs="[EvLog Retained (sint (m_refCount so))]"])
         (auto simp: thread_do_def log_step_Some Let_def log_retain [OF c2] simp del: log_ok.simps)
  next
    case TReleaseLog
    with st D(1) G i lo show ?thesis
      by (intro nx [where evs="[EvLog Released (sint (m_refCount so))]"])
         (auto simp: thread_do_def log_step_Some Let_def log_release [OF lo] simp del: log_ok.simps)
  next
    case TRetainUnlock
    with st D(1,3) G i show ?thesis
      by (intro nx [where evs="[EvUnlock i]"]) (auto simp: thread_do_def unlock_step_Some Let_def)
  next
    case TReleaseUnlock
    with st D(1,3) G i show ?thesis
      by (intro nx [where evs="[EvUnlock i]"]) (auto simp: thread_do_def unlock_step_Some Let_def)
  next
    case TRetainLoad
    with st D(1) G i show ?thesis by (intro nx [where evs="[]"]) (auto simp: thread_do_def Let_def)
  next
    case TReleaseLoad
    with st D(1) G i show ?thesis by (intro nx [where evs="[]"]) (auto simp: thread_do_def Let_def)
  next
    case TReleaseTest
    with st D(1) G i lo show ?thesis
      by (intro nx [where evs="[]"]) (auto simp: thread_do_def Let_def split: if_splits)
  next
    case TReleaseDelete
    have z: "sint (m_refCount so) = 0" using D(9) TReleaseDelete by blast
    have "s' = s\<lparr>mem := \<lparr>obj = None, trace = trace (mem s) @ [EvUnlock i, EvLock i, EvLog Deleted 0, EvUnlock i,
                                                 EvDeleteLock, EvFreeObject]\<rparr>,
                 thr := (thr s)(i := thr s i\<lparr>pc := TIdle\<rparr>)\<rparr>"
      using st TReleaseDelete delete_branch_eq [OF D(1,3) owni exc z] by (simp add: thread_do_def)
    then show ?thesis using TReleaseDelete G z
      by (intro nx [where evs="[EvUnlock i, EvLock i, EvLog Deleted 0, EvUnlock i, EvDeleteLock, EvFreeObject]"])
         (simp_all add: log_state_def)
  qed (use cs in simp_all)
qed

lemma linv_step:
  assumes inv: "oinv p n own prog s" and li: "linv n N s" and ex: "p \<noteq> LOCK_POLICY_NONE"
    and bound: "int (\<Sum>i<n. own i) + int (total_retains n prog) < INT_MAX"
    and st: "thread_step i s = Some s'"
  shows "linv n N s'"
proof -
  have wf: "\<forall>i<n. holds (int (own i)) (prog i)" and idl: "idle_from n s"
    using inv by (simp_all add: oinv_def)
  have i: "i < n"
  proof (rule ccontr)
    assume "\<not> i < n"
    then have "thr s i = \<lparr>pc = TIdle, todo = [], net = 0\<rparr>" using idl by (simp add: idle_from_def)
    then show False using st by simp
  qed
  show ?thesis
  proof (cases "odead n own prog s")
    case True
    then have "pc (thr s i) = TIdle" "todo (thr s i) = []" by (simp_all add: odead_def all_done_def)
    then show ?thesis using st by simp
  next
    case False
    then obtain so l where al: "oalive p n own prog s so l" using inv by (auto simp: oinv_def)
    note D = oaliveD [OF al]
    show ?thesis
    proof (cases "in_cs (pc (thr s i))")
      case True
      then show ?thesis using linv_step_cs [OF wf al li ex bound st i] by blast
    next
      case False
      then have idle: "pc (thr s i) = TIdle" using st by (cases "pc (thr s i)") simp_all
      obtain op rest where td: "todo (thr s i) = op # rest" using st idle by (cases "todo (thr s i)") simp_all
      have exc: "excludes (lk_class l)" using lock_for_policy_excludes [OF D(4) ex] by simp
      have free: "lk_owner l = None"
      proof (rule ccontr)
        assume "lk_owner l \<noteq> None"
        then obtain u where "lk_owner l = Some u" by blast
        then have "lock_step i (mem s) = Inl (LockBlocked, mem s)"
          using D(1,3) exc by (rule_tac lock_step_blocked) simp_all
        then show False using st idle td by (simp add: thread_do_def)
      qed
      show ?thesis using st idle td D(1,3) free i
        by (intro linv_next [OF li D(1), where evs="[EvLock i]"])
           (auto simp: thread_do_def lock_step_free Let_def split: rc_op.splits)
    qed
  qed
qed

lemma init_owned_linv:
  assumes "0 < (\<Sum>i<n. own i)" "(\<Sum>i<n. own i) < 2 ^ 31"
  shows "linv n (\<Sum>i<n. own i) (init_owned p n own prog)"
proof -
  define N where "N = (\<Sum>i<n. own i)"
  have pos: "0 < N" and sn: "sint (of_nat N :: int32) = int N"
    using assms sint_of_nat_small [OF assms(2)] by (simp_all add: N_def)
  have "log_gaps n (init_owned p n own prog) = 0" by (simp add: log_gaps_def init_owned_def)
  then show ?thesis using pos sn
    by (simp add: linv_def init_owned_def log_state_def N_def [symmetric] del: of_nat_sum)
qed

lemma reach_linv:
  assumes "reach (init_owned p n own prog) s" "lock_for_policy p \<noteq> None" "p \<noteq> LOCK_POLICY_NONE"
    and "\<forall>i<n. holds (int (own i)) (prog i)" "0 < (\<Sum>i<n. own i)"
    and "int (\<Sum>i<n. own i) + int (total_retains n prog) < INT_MAX"
  shows "linv n (\<Sum>i<n. own i) s"
  using assms(1)
proof (induction rule: reach.induct)
  case refl
  have "(\<Sum>i<n. own i) < 2 ^ 31" using assms(6) by (simp del: of_nat_sum)
  then show ?case using init_owned_linv [OF assms(5)] by blast
next
  case (step s s')
  have "oinv p n own prog s" using reach_oinv [OF step.hyps(1) assms(2-6)] .
  then show ?case using step linv_step assms(3,6) by (blast elim: sys_step.cases)
qed

lemma log_ok_Destroyed:
  "log_ok s ys = Some st \<Longrightarrow> s = Destroyed \<Longrightarrow>
   st = Destroyed \<and> (\<forall>c. EvLog Retained c \<notin> set ys \<and> EvLog Released c \<notin> set ys)"
  by (induction s ys rule: log_ok.induct) (auto split: if_splits option.splits)

lemma log_ok_zero_once:
  "log_ok s tr = Some st \<Longrightarrow>
   count_list tr (EvLog Released 0) = (if s \<noteq> Destroyed \<and> st = Destroyed then 1 else 0)"
proof (induction s tr arbitrary: st rule: log_ok.induct)
  case (2 s c evs)
  then show ?case by (cases s) (auto split: if_splits dest: log_ok_Destroyed)
next
  case (3 s c evs)
  then show ?case by (cases s) (auto split: if_splits dest: log_ok_Destroyed)
qed (auto split: if_splits dest: log_ok_Destroyed)

lemma linv_final:
  assumes inv: "oinv p n own prog s" and li: "linv n N s" and fin: "all_done s" and o: "obj (mem s) = Some so"
  shows "log_ok (Live N) (trace (mem s)) = Some (Live (nat (sint (m_refCount so))))"
proof -
  obtain so' l where al: "oalive p n own prog s so' l" using inv o by (auto simp: oinv_def odead_def)
  note D = oaliveD [OF al]
  have so': "so' = so" using D(1) o by simp
  have nocs: "\<forall>j. \<not> in_cs (pc (thr s j))" using fin by (simp add: all_done_def)
  have "sint (m_refCount so) \<noteq> 0" using D(8) fin so' by (auto simp: all_done_def)
  then show ?thesis using li o log_gaps_none [OF nocs] by (simp add: linv_def log_state_def)
qed

text \<open>
  C23: Under an exclusive policy, with threads that each own some references and call Retain and Release only while they own one, the diagnostic log is a sequential history of the reference-count contract in every interleaving. Replaying the printed lines in the order printed, each printed count is exactly the contract's count after the printed call, starting from the references handed out, and the destructor prints 0 on a destroyed object. Once the object is freed the log has reached the destroyed state; once every thread has finished and the object is alive, the log has reached its count.
\<close>

theorem owners_log_history:
  assumes "reach (init_owned p n own prog) s" "lock_for_policy p \<noteq> None" "p \<noteq> LOCK_POLICY_NONE"
    and "\<forall>i<n. holds (int (own i)) (prog i)" "0 < (\<Sum>i<n. own i)"
    and "int (\<Sum>i<n. own i) + int (total_retains n prog) < INT_MAX"
  shows "\<exists>st. log_ok (Live (\<Sum>i<n. own i)) (trace (mem s)) = Some st
           \<and> (obj (mem s) = None \<longrightarrow> st = Destroyed)
           \<and> (\<forall>so. all_done s \<longrightarrow> obj (mem s) = Some so \<longrightarrow> st = Live (nat (sint (m_refCount so))))"
proof -
  have li: "linv n (\<Sum>i<n. own i) s" using reach_linv [OF assms] .
  have inv: "oinv p n own prog s" using reach_oinv [OF assms] .
  show ?thesis
  proof (cases "obj (mem s)")
    case None
    then show ?thesis using li by (simp add: linv_def)
  next
    case (Some so)
    then show ?thesis using li linv_final [OF inv li _ Some] by (auto simp: linv_def)
  qed
qed

theorem owners_log_history_witness:
  "\<exists>s. reach (init_owned LOCK_POLICY_MUTEX 2 (\<lambda>i. 1) (\<lambda>i. [OpRetain, OpRelease, OpRelease])) s
     \<and> obj (mem s) = None \<and> log_ok (Live 2) (trace (mem s)) = Some Destroyed"
proof -
  let ?s0 = "init_owned LOCK_POLICY_MUTEX 2 (\<lambda>i. 1) (\<lambda>i. [OpRetain, OpRelease, OpRelease])"
  let ?sched = "replicate 5 0 @ replicate 5 1 @ replicate 6 0 @ replicate 6 1 @ replicate 6 0 @ replicate 6 1"
  have "\<exists>s. run_sched ?sched ?s0 = Some s \<and> obj (mem s) = None"
    by (simp add: sched_simps init_owned_def delete_this_def SmartObject_dtor_def numeral_eq_Suc)
  then obtain s where r: "run_sched ?sched ?s0 = Some s" and f: "obj (mem s) = None" by blast
  have re: "reach ?s0 s" using run_sched_reach [OF reach.refl r] .
  have "\<exists>st. log_ok (Live 2) (trace (mem s)) = Some st \<and> (obj (mem s) = None \<longrightarrow> st = Destroyed)"
    using owners_log_history [OF re] by (auto simp: total_retains_def)
  then have "log_ok (Live 2) (trace (mem s)) = Some Destroyed" using f by auto
  then show ?thesis using re f by blast
qed

text \<open>
  C24: Under an exclusive policy, with threads that own references and call only while they own one, the transition to 0 is observed by exactly one caller: once the object has been freed, the log holds exactly one Release line that printed the count 0, and no Retain or Release line after it.
\<close>

theorem owners_zero_seen_once:
  assumes "reach (init_owned p n own prog) s" "lock_for_policy p \<noteq> None" "p \<noteq> LOCK_POLICY_NONE"
    and "\<forall>i<n. holds (int (own i)) (prog i)" "0 < (\<Sum>i<n. own i)"
    and "int (\<Sum>i<n. own i) + int (total_retains n prog) < INT_MAX"
    and "obj (mem s) = None"
  shows "count_list (trace (mem s)) (EvLog Released 0) = 1
       \<and> (\<exists>xs ys. trace (mem s) = xs @ EvLog Released 0 # ys
                  \<and> (\<forall>c. EvLog Retained c \<notin> set ys \<and> EvLog Released c \<notin> set ys))"
proof -
  have lo: "log_ok (Live (\<Sum>i<n. own i)) (trace (mem s)) = Some Destroyed"
    using reach_linv [OF assms(1-6)] assms(7) by (simp add: linv_def)
  have one: "count_list (trace (mem s)) (EvLog Released 0) = 1" using log_ok_zero_once [OF lo] by simp
  then obtain xs ys where tr: "trace (mem s) = xs @ EvLog Released 0 # ys"
    by (metis count_list_0_iff one_neq_zero split_list)
  have "count_list xs (EvLog Released 0) = 0" "count_list ys (EvLog Released 0) = 0"
    using one tr by simp_all
  obtain sx where sx: "log_ok (Live (\<Sum>i<n. own i)) xs = Some sx"
    using lo tr by (cases "log_ok (Live (\<Sum>i<n. own i)) xs") (simp_all add: log_ok_append)
  have "sx \<noteq> Destroyed" using log_ok_zero_once [OF sx] \<open>count_list xs _ = 0\<close> by (auto split: if_splits)
  then have "log_ok Destroyed ys = Some Destroyed"
    using lo tr sx by (cases sx) (auto simp: log_ok_append split: option.splits if_splits)
  then have "\<forall>c. EvLog Retained c \<notin> set ys \<and> EvLog Released c \<notin> set ys"
    using log_ok_Destroyed by blast
  then show ?thesis using one tr by blast
qed

theorem owners_zero_seen_once_witness:
  "\<exists>s. reach (init_owned LOCK_POLICY_CRITICALSECTION 2 (\<lambda>i. 1) (\<lambda>i. [OpRelease])) s
     \<and> obj (mem s) = None \<and> count_list (trace (mem s)) (EvLog Released 0) = 1"
proof -
  let ?s0 = "init_owned LOCK_POLICY_CRITICALSECTION 2 (\<lambda>i. 1) (\<lambda>i. [OpRelease])"
  have "\<exists>s. run_sched (replicate 6 1 @ replicate 6 0) ?s0 = Some s \<and> obj (mem s) = None"
    by (simp add: sched_simps init_owned_def delete_this_def SmartObject_dtor_def numeral_eq_Suc)
  then obtain s where r: "run_sched (replicate 6 1 @ replicate 6 0) ?s0 = Some s" and f: "obj (mem s) = None"
    by blast
  have re: "reach ?s0 s" using run_sched_reach [OF reach.refl r] .
  have "count_list (trace (mem s)) (EvLog Released 0) = 1"
    using owners_zero_seen_once [OF re _ _ _ _ _ f] by (simp add: total_retains_def)
  then show ?thesis using re f by blast
qed

end
