(* ===== verification/Heap.thy ===== *)
theory Heap
  imports Smart_Object
begin

text \<open>
  Several objects on one heap. A \<open>SmartObject\<close> is reached through a pointer: the
  constructors are called through \<open>EP_NEW\<close>, which allocates a fresh address, and a
  member function (\<open>Retain\<close>, \<open>Release\<close>, the destructor) acts on \<open>this\<close> only.
  The heap maps addresses to objects (\<open>None\<close>: never allocated or freed), with the
  next fresh address and the trace of events tagged by object. A member call
  \<open>on_obj a f\<close> runs any operation \<open>f\<close> of theory \<open>Smart_Object\<close> on the object
  at \<open>a\<close> and writes it back; \<open>heap_run\<close> runs a sequence of such calls and stops at
  the first exception. The allocator hands out addresses in order and never reuses
  one, so that a call on a freed object is seen as \<open>UseAfterFree\<close> and never as a
  call on a later object (a real allocator may reuse the memory, which makes such a
  call undefined behaviour). The lemmas hold for every operation \<open>f\<close>: a call on
  one object leaves every other object as it was, and a copy is a fresh object that
  shares nothing with its source.
\<close>

type_synonym addr = nat

record heap =
  hobjs :: "addr \<Rightarrow> SmartObject option"
  hnext :: addr
  htrace :: "(addr \<times> so_event) list"

type_synonym heap_result = "(so_error, heap) exc"

definition empty_heap :: heap where
  "empty_heap = \<lparr>hobjs = (\<lambda>a. None), hnext = 0, htrace = []\<rparr>"

text \<open>The object at \<open>a\<close> as the memory that a member function of it sees.\<close>

definition slot :: "addr \<Rightarrow> heap \<Rightarrow> so_world" where
  "slot a h = \<lparr>obj = hobjs h a, trace = []\<rparr>"

definition store :: "addr \<Rightarrow> so_world \<Rightarrow> heap \<Rightarrow> heap" where
  "store a w h = h\<lparr>hobjs := (hobjs h)(a := obj w), htrace := htrace h @ map (Pair a) (trace w)\<rparr>"

text \<open>\<open>a->f()\<close>: the call runs on the object at \<open>a\<close>; an exception leaves the object
  as it was at the throw point.\<close>

definition on_obj :: "addr \<Rightarrow> so_step \<Rightarrow> heap \<Rightarrow> heap_result" where
  "on_obj a f h = (case f (slot a h) of Inl (e, w) \<Rightarrow> Inl (e, store a w h) | Inr w \<Rightarrow> Inr (store a w h))"

primrec heap_run :: "(addr \<times> so_step) list \<Rightarrow> heap \<Rightarrow> heap_result" where
  "heap_run [] h = Inr h"
| "heap_run (c # cs) h = exc_bind (on_obj (fst c) (snd c) h) (heap_run cs)"

text \<open>\<open>EP_NEW SmartObject(lockPolicyType)\<close> (lines 133--153) at the next fresh address.\<close>

definition new_object :: "LockPolicy \<Rightarrow> heap \<Rightarrow> addr \<times> heap" where
  "new_object p h = (hnext h, (store (hnext h) (SmartObject_ctor p) h)\<lparr>hnext := Suc (hnext h)\<rparr>)"

text \<open>\<open>EP_NEW SmartObject(b)\<close> (lines 159--179): the copy constructor reads
  \<open>b.m_lockPolicy\<close>, so a freed source is a use after free.\<close>

definition copy_object :: "addr \<Rightarrow> heap \<Rightarrow> (so_error \<times> heap) + (addr \<times> heap)" where
  "copy_object b h =
     (case hobjs h b of
        None \<Rightarrow> Inl (UseAfterFree, h)
      | Some sb \<Rightarrow> Inr (hnext h, (store (hnext h) (SmartObject_copy sb) h)\<lparr>hnext := Suc (hnext h)\<rparr>))"

text \<open>Every object on the heap satisfies the invariant of \<open>Smart_Object\<close>, and no
  object lives at a fresh address.\<close>

definition heap_inv :: "heap \<Rightarrow> bool" where
  "heap_inv h \<longleftrightarrow> (\<forall>a. world_inv (slot a h)) \<and> (\<forall>a. hnext h \<le> a \<longrightarrow> hobjs h a = None)"

text \<open>The calls of a sequence that go to the object at \<open>a\<close>, in order.\<close>

definition ops_at :: "addr \<Rightarrow> (addr \<times> 'a) list \<Rightarrow> 'a list" where
  "ops_at a cs = map snd (filter (\<lambda>c. fst c = a) cs)"

subsection \<open>Member calls act on their object only\<close>

lemma hobjs_store [simp]: "hobjs (store a w h) = (hobjs h)(a := obj w)"
  by (simp add: store_def)

lemma hnext_store [simp]: "hnext (store a w h) = hnext h"
  by (simp add: store_def)

lemma slot_store [simp]: "slot b (store a w h) = (if b = a then \<lparr>obj = obj w, trace = []\<rparr> else slot b h)"
  by (simp add: slot_def)

lemma obj_slot [simp]: "obj (slot a h) = hobjs h a"
  by (simp add: slot_def)

lemma on_obj_cases:
  obtains w where "on_obj a f h = Inr (store a w h)" "f (slot a h) = Inr w"
  | e w where "on_obj a f h = Inl (e, store a w h)" "f (slot a h) = Inl (e, w)"
  by (cases "f (slot a h)") (auto simp: on_obj_def)

lemma on_obj_store:
  "on_obj a f h = Inr h' \<Longrightarrow> \<exists>w. h' = store a w h"
  "on_obj a f h = Inl (e, h') \<Longrightarrow> \<exists>w. h' = store a w h"
  by (cases rule: on_obj_cases [of a f h]; auto)+

lemma heap_run_frame:
  assumes "\<forall>c\<in>set cs. fst c \<noteq> b" "heap_run cs h = Inr h' \<or> heap_run cs h = Inl (e, h')"
  shows "hobjs h' b = hobjs h b \<and> hnext h' = hnext h"
  using assms
proof (induction cs arbitrary: h)
  case Nil
  then show ?case by simp
next
  case (Cons c cs)
  show ?case
  proof (cases "on_obj (fst c) (snd c) h")
    case (Inl eh)
    obtain e1 h1 where eh: "eh = (e1, h1)" by (cases eh)
    then obtain w where "h1 = store (fst c) w h" using Inl on_obj_store(2) by blast
    then show ?thesis using Cons.prems Inl eh by auto
  next
    case (Inr h1)
    then obtain w where "h1 = store (fst c) w h" using on_obj_store(1) by blast
    then show ?thesis using Cons Inr by simp
  qed
qed

lemma ops_at_Nil [simp]: "ops_at a [] = []"
  by (simp add: ops_at_def)

lemma ops_at_Cons [simp]: "ops_at a (c # cs) = (if fst c = a then snd c # ops_at a cs else ops_at a cs)"
  by (simp add: ops_at_def)

lemma heap_inv_slot: "heap_inv h \<Longrightarrow> world_inv (slot a h)"
  by (simp add: heap_inv_def)

lemma heap_inv_fresh: "heap_inv h \<Longrightarrow> hnext h \<le> a \<Longrightarrow> hobjs h a = None"
  by (simp add: heap_inv_def)

lemma heap_inv_store:
  assumes "heap_inv h" "world_inv w" "a < hnext h \<or> obj w = None"
  shows "heap_inv (store a w h)"
  using assms unfolding heap_inv_def by (auto simp: world_inv_def)

lemma new_object_eq:
  "new_object p h = (hnext h, (store (hnext h) (SmartObject_ctor p) h)\<lparr>hnext := Suc (hnext h)\<rparr>)"
  by (simp add: new_object_def)

lemma heap_inv_new_object:
  assumes "heap_inv h" "lock_for_policy p \<noteq> None"
  shows "heap_inv (snd (new_object p h))"
proof -
  have "world_inv (SmartObject_ctor p)"
    using assms(2) lock_for_policy_free by (auto simp: world_inv_def so_inv_def SmartObject_ctor_def)
  then show ?thesis using assms(1) unfolding heap_inv_def new_object_def
    by (auto simp: world_inv_def SmartObject_ctor_def)
qed

lemma copy_object_Some:
  "hobjs h b = Some sb \<Longrightarrow>
   copy_object b h = Inr (hnext h, (store (hnext h) (SmartObject_copy sb) h)\<lparr>hnext := Suc (hnext h)\<rparr>)"
  by (simp add: copy_object_def)

lemma heap_inv_copy_object:
  assumes "heap_inv h" "copy_object b h = Inr (a, h')"
  shows "heap_inv h' \<and> a = hnext h \<and> b < a"
proof -
  obtain sb where sb: "hobjs h b = Some sb" using assms(2) by (cases "hobjs h b") (auto simp: copy_object_def)
  have "so_inv sb" using heap_inv_slot [OF assms(1), of b] sb by (simp add: world_inv_def slot_def)
  then have "world_inv (SmartObject_copy sb)"
    using lock_for_policy_free by (auto simp: world_inv_def so_inv_def SmartObject_copy_def)
  moreover have "b < hnext h" using heap_inv_fresh [OF assms(1), of b] sb by (cases "hnext h \<le> b") auto
  ultimately show ?thesis using assms sb unfolding heap_inv_def copy_object_def
    by (auto simp: world_inv_def SmartObject_copy_def)
qed

end
