(* ===== verification/Heap_Ops.thy ===== *)
theory Heap_Ops
  imports Heap
begin

text \<open>
  The operations a client performs on the heap of \<open>SmartObject\<close>s, as one datatype
  with one step function: \<open>EP_NEW SmartObject(p)\<close>, \<open>EP_NEW SmartObject(*b)\<close>,
  \<open>*a = *b\<close>, \<open>a->Retain()\<close> and \<open>a->Release()\<close>. A client may catch an exception of a call
  and go on with the heap the exception left. The reachable heaps are an inductive
  set, and heap conformance (every live object carries the lock of its policy,
  unowned, and a positive count; nothing lives at a fresh address) holds of all of
  them, as the heap conformance of a language semantics holds of its reachable
  states. A call is checked only where the code has a precondition it does not test:
  a policy with a lock (otherwise every later call dereferences a null lock) and a
  count below \<open>INT_MAX\<close> before \<open>Retain\<close> (otherwise the count wraps).
\<close>

text \<open>\<open>SmartObject &operator=(const SmartObject &b)\<close> is declared at line 58, but its
  body is not part of the repository; it is modelled from the specification
  (section 4.2, "Assign"): a derived class is an extension of the record
  \<open>SmartObject\<close>, and the assignment copies only the derived part of \<open>b\<close>, keeping
  the count, the lock and the policy of \<open>this\<close>.\<close>

definition SmartObject_assign :: "'a SmartObject_scheme \<Rightarrow> 'a SmartObject_scheme \<Rightarrow> 'a SmartObject_scheme" where
  "SmartObject_assign this b = SmartObject.extend (SmartObject.truncate this) (SmartObject.more b)"

text \<open>\<open>*a = *b\<close> on the heap: both operands are dereferenced, so a freed one is a use
  after free.\<close>

definition assign_object :: "addr \<Rightarrow> addr \<Rightarrow> heap \<Rightarrow> heap_result" where
  "assign_object a b h =
     (case hobjs h a of
        None \<Rightarrow> Inl (UseAfterFree, h)
      | Some oa \<Rightarrow>
          (case hobjs h b of
             None \<Rightarrow> Inl (UseAfterFree, h)
           | Some ob \<Rightarrow> Inr (h\<lparr>hobjs := (hobjs h)(a \<mapsto> SmartObject_assign oa ob)\<rparr>)))"

datatype heap_op = HNew LockPolicy | HCopy addr | HAssign addr addr | HRetain addr | HRelease addr

fun heap_exec :: "tid \<Rightarrow> heap_op \<Rightarrow> heap \<Rightarrow> heap_result" where
  "heap_exec t (HNew p) h = Inr (snd (new_object p h))"
| "heap_exec t (HCopy b) h = (case copy_object b h of Inl eh \<Rightarrow> Inl eh | Inr ah \<Rightarrow> Inr (snd ah))"
| "heap_exec t (HAssign a b) h = assign_object a b h"
| "heap_exec t (HRetain a) h = on_obj a (Retain t) h"
| "heap_exec t (HRelease a) h = on_obj a (Release t) h"

text \<open>The preconditions the code leaves to its caller.\<close>

fun op_ok :: "heap \<Rightarrow> heap_op \<Rightarrow> bool" where
  "op_ok h (HNew p) = (lock_for_policy p \<noteq> None)"
| "op_ok h (HRetain a) = (case hobjs h a of None \<Rightarrow> True | Some so \<Rightarrow> sint (m_refCount so) < INT_MAX)"
| "op_ok h (HCopy b) = True"
| "op_ok h (HAssign a b) = True"
| "op_ok h (HRelease a) = True"

text \<open>The heaps a program reaches from the empty heap by checked calls, through
  normal returns and caught exceptions alike.\<close>

inductive heap_reach :: "heap \<Rightarrow> bool" where
  empty: "heap_reach empty_heap"
| ret: "heap_reach h \<Longrightarrow> op_ok h op \<Longrightarrow> heap_exec t op h = Inr h' \<Longrightarrow> heap_reach h'"
| exc: "heap_reach h \<Longrightarrow> op_ok h op \<Longrightarrow> heap_exec t op h = Inl (e, h') \<Longrightarrow> heap_reach h'"

subsection \<open>A member call keeps its object conforming\<close>

lemma Retain_world_inv:
  assumes "world_inv w" "\<forall>so. obj w = Some so \<longrightarrow> sint (m_refCount so) < INT_MAX"
    and "Retain t w = Inr w' \<or> Retain t w = Inl (e, w')"
  shows "world_inv w'"
proof (cases "obj w")
  case None
  then show ?thesis using assms(1,3) by auto
next
  case (Some so)
  then have inv: "so_inv so" using assms(1) by (simp add: world_inv_def)
  have b: "sint (m_refCount so) < INT_MAX" using assms(2) Some by blast
  have "so_inv (so\<lparr>m_refCount := m_refCount so + 1\<rparr>)"
    using inv b by (intro so_inv_count) (auto simp: so_inv_def count_simps)
  then show ?thesis using assms(3) Retain_eq [OF inv Some b, of t] by (auto simp: world_inv_def)
qed

lemma Release_world_inv:
  assumes "world_inv w" "Release t w = Inr w' \<or> Release t w = Inl (e, w')"
  shows "world_inv w'"
proof (cases "obj w")
  case None
  then show ?thesis using assms by auto
next
  case (Some so)
  then have inv: "so_inv so" using assms(1) by (simp add: world_inv_def)
  show ?thesis
  proof (cases "sint (m_refCount so) = 1")
    case True
    then show ?thesis using assms(2) Release_eq_last [OF inv Some True, of t] by (auto simp: world_inv_def)
  next
    case False
    then have gt: "1 < sint (m_refCount so)" using inv by (simp add: so_inv_def)
    then show ?thesis using assms(2) Release_eq_live [OF inv Some gt, of t] inv sint_range [of "m_refCount so"]
      by (auto simp: world_inv_def so_inv_count count_simps)
  qed
qed

lemma heap_inv_on_obj:
  assumes "heap_inv h" "world_inv w" "hobjs h a = None \<Longrightarrow> obj w = None"
  shows "heap_inv (store a w h)"
proof (cases "hobjs h a")
  case None
  then show ?thesis using heap_inv_store [OF assms(1,2)] assms(3) by blast
next
  case (Some so)
  then have "a < hnext h" using heap_inv_fresh [OF assms(1), of a] by (cases "hnext h \<le> a") auto
  then show ?thesis using heap_inv_store [OF assms(1,2)] by blast
qed

text \<open>A member call returns or throws with the heap of \<open>on_obj\<close>: the object it
  leaves written back, or, on a freed object, the \<open>UseAfterFree\<close> of the first access.\<close>

lemma on_obj_member:
  assumes "on_obj a f h = Inr h' \<or> on_obj a f h = Inl (e, h')"
    and "\<And>w. obj w = None \<Longrightarrow> f w = Inl (UseAfterFree, w)"
  obtains w where "h' = store a w h" "f (slot a h) = Inr w \<or> (\<exists>e. f (slot a h) = Inl (e, w))"
    "hobjs h a = None \<Longrightarrow> obj w = None"
proof (cases rule: on_obj_cases [of a f h])
  case (1 w)
  moreover have "hobjs h a = None \<Longrightarrow> obj w = None" using 1(2) assms(2) [of "slot a h"] by simp
  ultimately show ?thesis using assms(1) that by auto
next
  case (2 e1 w)
  moreover have "obj w = None" if N: "hobjs h a = None"
  proof -
    have "f (slot a h) = Inl (UseAfterFree, slot a h)" using assms(2) N by simp
    then show ?thesis using 2(2) N by simp
  qed
  ultimately show ?thesis using assms(1) that by auto
qed

lemma SmartObject_assign_base [simp]: "SmartObject_assign (x :: SmartObject) y = x"
  by (simp add: SmartObject_assign_def SmartObject.defs)

lemma assign_object_eq:
  "assign_object a b h = (if hobjs h a = None \<or> hobjs h b = None then Inl (UseAfterFree, h) else Inr h)"
  by (auto simp: assign_object_def fun_upd_idem split: option.splits)

lemma heap_exec_inv:
  assumes "heap_inv h" "op_ok h op" "heap_exec t op h = Inr h' \<or> heap_exec t op h = Inl (e, h')"
  shows "heap_inv h'"
proof (cases op)
  case (HNew p)
  then have "h' = snd (new_object p h)" using assms(3) by auto
  moreover have "lock_for_policy p \<noteq> None" using assms(2) HNew by simp
  ultimately show ?thesis using heap_inv_new_object [OF assms(1)] by blast
next
  case (HCopy b)
  show ?thesis
  proof (cases "hobjs h b")
    case None
    then have "h' = h" using assms(3) HCopy by (auto simp: copy_object_def)
    then show ?thesis using assms(1) by simp
  next
    case (Some sb)
    then have "copy_object b h = Inr (hnext h, h')" using assms(3) HCopy by (auto simp: copy_object_Some)
    then show ?thesis using heap_inv_copy_object [OF assms(1)] by blast
  qed
next
  case (HAssign a b)
  then have "h' = h" using assms(3) by (simp add: assign_object_eq split: if_splits)
  then show ?thesis using assms(1) by simp
next
  case (HRetain a)
  have slot: "world_inv (slot a h)" using heap_inv_slot [OF assms(1)] .
  have b: "\<forall>so. obj (slot a h) = Some so \<longrightarrow> sint (m_refCount so) < INT_MAX"
    using assms(2) HRetain by (auto split: option.splits)
  have r: "on_obj a (Retain t) h = Inr h' \<or> on_obj a (Retain t) h = Inl (e, h')" using assms(3) HRetain by simp
  obtain w where hw: "h' = store a w h" and rw: "Retain t (slot a h) = Inr w \<or> (\<exists>e. Retain t (slot a h) = Inl (e, w))"
      and nn: "hobjs h a = None \<Longrightarrow> obj w = None"
    using on_obj_member [OF r Retain_freed] by blast
  have "world_inv w" using rw Retain_world_inv [OF slot b] by blast
  then show ?thesis using heap_inv_on_obj [OF assms(1) _ nn] hw by simp
next
  case (HRelease a)
  have slot: "world_inv (slot a h)" using heap_inv_slot [OF assms(1)] .
  have r: "on_obj a (Release t) h = Inr h' \<or> on_obj a (Release t) h = Inl (e, h')" using assms(3) HRelease by simp
  obtain w where hw: "h' = store a w h" and rw: "Release t (slot a h) = Inr w \<or> (\<exists>e. Release t (slot a h) = Inl (e, w))"
      and nn: "hobjs h a = None \<Longrightarrow> obj w = None"
    using on_obj_member [OF r Release_freed] by blast
  have "world_inv w" using rw Release_world_inv [OF slot] by blast
  then show ?thesis using heap_inv_on_obj [OF assms(1) _ nn] hw by simp
qed

lemma heap_inv_empty: "heap_inv empty_heap"
  by (simp add: heap_inv_def empty_heap_def slot_def world_inv_def)

text \<open>
  C22: Heap conformance. Every heap that a program reaches from the empty heap by
  EP_NEW, copy construction, assignment, Retain and Release, each called within the preconditions
  the code leaves to its caller and each either returning or throwing an exception
  the program catches, conforms: every live object holds the unowned lock its policy
  selects and a positive count, and no object lives at an address not yet allocated.
\<close>

theorem heap_reach_conforms:
  assumes "heap_reach h"
  shows "heap_inv h"
  using assms
proof (induction rule: heap_reach.induct)
  case empty
  then show ?case by (rule heap_inv_empty)
next
  case (ret h op t h')
  then show ?case using heap_exec_inv by blast
next
  case (exc h op t e h')
  then show ?case using heap_exec_inv by blast
qed

theorem heap_reach_conforms_witness:
  "\<exists>h. heap_reach h \<and> heap_inv h \<and> hobjs h 1 = None \<and> hobjs h 0 \<noteq> None \<and> hnext h = 2"
proof -
  let ?h1 = "snd (new_object LOCK_POLICY_MUTEX empty_heap)"
  have r1: "heap_reach ?h1"
    by (rule heap_reach.ret [OF heap_reach.empty, where op = "HNew LOCK_POLICY_MUTEX" and t = 0]) simp_all
  have "\<exists>h2 h3 h4. heap_exec 0 (HRetain 0) ?h1 = Inr h2 \<and> heap_exec 0 (HCopy 0) h2 = Inr h3
          \<and> heap_exec 0 (HRelease 1) h3 = Inr h4 \<and> op_ok ?h1 (HRetain 0)
          \<and> hobjs h4 1 = None \<and> hobjs h4 0 \<noteq> None \<and> hnext h4 = 2"
    by (simp add: new_object_def empty_heap_def on_obj_def copy_object_def store_def slot_def
        SmartObject_ctor_def SmartObject_copy_def Retain_def Release_def delete_this_def
        SmartObject_dtor_def step_simps count_simps put_obj_def new_lock_def)
  then obtain h2 h3 h4 where e: "heap_exec 0 (HRetain 0) ?h1 = Inr h2" "heap_exec 0 (HCopy 0) h2 = Inr h3"
      "heap_exec 0 (HRelease 1) h3 = Inr h4" "op_ok ?h1 (HRetain 0)"
      and f: "hobjs h4 1 = None" "hobjs h4 0 \<noteq> None" "hnext h4 = 2"
    by blast
  have "heap_reach h4"
    using heap_reach.ret [OF heap_reach.ret [OF heap_reach.ret [OF r1 e(4) e(1)] _ e(2)] _ e(3)] by simp
  then show ?thesis using heap_reach_conforms [of h4] f by blast
qed

end
