(* ===== verification/Spec2Isabelle.thy ===== *)
theory Spec2Isabelle
  imports Smart_Object Refcount_Spec Diagnostics Threads Ownership Log_History Heap Heap_Ops
begin

text \<open>
  \<^bold>\<open>Verification of epl::SmartObject.\<close>
  The repository's source is one header,
  src/EpOraLibrary/EpOraLibrary/EpLibraryHeaders/epSmartObject.h: the class
  \<open>SmartObject\<close>, an intrusive, thread-safe reference count. It holds a C \<open>int\<close>
  count (\<open>m_refCount\<close>), a lock (\<open>m_refCounterLock\<close>, a \<open>BaseLock *\<close>) and the
  policy that chose the lock (\<open>m_lockPolicy\<close>). The constructors set the count to 1
  and build a fresh lock for the policy; \<open>Retain\<close> increments the count under the
  lock; \<open>Release\<close> decrements it under the lock and, at zero, bumps it back to 1,
  unlocks and runs \<open>EP_DELETE this\<close>, whose destructor locks again, decrements to 0,
  checks the count, unlocks and deletes the lock. Only the \<open>_DEBUG\<close> build has
  bodies in the header (lines 95--200, with \<open>LOG_THIS_MSG\<close> diagnostics); the
  release build declares the same members (lines 53--89) and defines them elsewhere.

  \<^bold>\<open>Theories.\<close>
  \<^item> \<open>Prelude\<close>: thread ids, the 32-bit counter (\<open>int32 = 32 word\<close>, read by
    \<open>sint\<close> as C reads an \<open>int\<close>), the result type \<open>(e, w) exc\<close> of an
    operation (\<open>Inr\<close> a normal return with the new memory, \<open>Inl (e, w)\<close> an
    exception or fault with the memory at that point), and \<open>run_steps\<close>, which runs
    the statements of a body in order and stops at the first exception.
  \<^item> \<open>Lock\<close>: the enumeration \<open>LockPolicy\<close>, the lock classes and the
    constructors' \<open>switch\<close> (\<open>lock_for_policy\<close>, lines 138--152 and 164--178).
    The lock classes are not in the repository and are modelled from the
    specification (section 4.1): exclusive for \<open>CriticalSectionEx\<close> and
    \<open>Mutex\<close>, a no-op for \<open>NoLock\<close>.
  \<^item> \<open>Smart_Object\<close>: the record \<open>SmartObject\<close> (lines 205--212), the memory
    \<open>so_world\<close> (the object, \<open>None\<close> once freed, and the trace of lock, log,
    delete and free events), one micro-step per statement kind, and the operations
    \<open>SmartObject_ctor\<close>, \<open>SmartObject_copy\<close>, \<open>Retain\<close>, \<open>Release\<close>,
    \<open>SmartObject_dtor\<close> and \<open>delete_this\<close>. The invariant \<open>so_inv\<close> says: the
    policy's lock, unowned, and a positive count. Its theorems give the exact result
    and trace of every operation on every branch: the normal paths
    (\<open>Retain_increments\<close>, \<open>Release_decrements\<close>, \<open>Release_last_destroys\<close>), the
    exceptions (\<open>Release_negative_keeps_lock\<close>, \<open>dtor_nonzero_count\<close>), the NULL
    lock (\<open>null_lock_faults\<close>), the held lock (\<open>held_lock_blocks\<close>), and the
    preservation of the invariant (\<open>ops_preserve_inv\<close>).
  \<^item> \<open>Refcount_Spec\<close>: the abstract contract of the specification (section 4.2),
    \<open>Live n\<close> and \<open>Destroyed\<close> with \<open>rc_step\<close>.
  \<^item> \<open>Diagnostics\<close>: the text of the debug build. The call-site macros
    (lines 214--218, \<open>at_call_site\<close>) pass the caller's file, function and line to
    the debug members (\<open>dbg_call\<close>); \<open>LOG_THIS_MSG\<close> prints one line per logged
    event with the format strings of lines 99, 110, 136/162 and 188
    (\<open>retained_msg\<close> etc., with \<open>%d\<close> spelled out as \<open>string_of_int\<close>), and
    the failed checks carry the \<open>SPrintf\<close> messages of lines 121 and 192.
  \<^item> \<open>Threads\<close>: concurrent callers (specification, section 5). Every thread executes
    the statements of \<open>Retain\<close> and \<open>Release\<close> one per step (\<open>thread_step\<close>),
    the count update split into load and store, and a scheduler interleaves the
    threads (\<open>sys_step\<close>, \<open>reach\<close>). Thread \<open>i\<close> runs a list of calls
    \<open>prog i\<close> (\<open>init_prog\<close>). For the exclusive policies and lists that never
    release more than they retained (\<open>never_overdraws\<close>), the invariant
    \<open>sys_inv\<close> is proved by rule induction over the reachable states. It gives
    mutual exclusion (\<open>mutual_exclusion\<close>), the absence of any exception or use
    after free (\<open>reachable_no_fault\<close>), the final count, 1 plus the lists' balance
    \<open>bal\<close>, with the lock restored (\<open>all_done_count_balance\<close>), deadlock freedom
    (\<open>deadlock_free\<close>), and that every reachable state can be completed
    (\<open>eventually_all_done\<close>, by well-founded induction on \<open>steps_left\<close>).
  \<^item> \<open>Ownership\<close>: the threads of \<open>Threads\<close> when they hold all the references
    (specification, sections 3 and 5: the count reaches 0 once, one caller sees it,
    and only that caller destroys). Thread \<open>i\<close> starts with \<open>own i\<close> references
    (\<open>init_owned\<close>, \<open>own_ctor_retains\<close>) and calls only while it owns one
    (\<open>holds\<close>). The invariant \<open>oinv\<close> is either \<open>oalive\<close> (the count is the
    sum of the owned references, \<open>owned\<close>; at 0 some thread is at the zero test) or
    \<open>odead\<close> (freed once, every thread finished, every balance 0). Every step
    preserves it, including the one that runs \<open>EP_DELETE this\<close>. It gives the
    absence of faults and destruction only after every owner has given back every
    reference (\<open>owners_safe\<close>), the exact count while alive
    (\<open>owners_count_exact\<close>), and that every run can be completed and ends
    destroyed exactly once if and only if the references sum to 0
    (\<open>owners_eventually_freed_iff\<close>).
  \<^item> \<open>Log_History\<close>: the diagnostic log as a history of the contract. \<open>log_ok\<close>
    replays the printed events against \<open>rc_step\<close> and checks each printed count.
    The invariant \<open>linv\<close> (the log replays to the object's count, less the one
    store whose print is still to come, \<open>log_gaps\<close>) is preserved by every step of
    the owners' runs under an exclusive policy: the log is linearizable
    (\<open>owners_log_history\<close>). Exactly one \<open>Release\<close> prints 0, and nothing is
    retained or released after it (\<open>owners_zero_seen_once\<close>).
  \<^item> \<open>Heap\<close>: several objects on one heap. \<open>new_object\<close> and \<open>copy_object\<close>
    are the constructors called through \<open>EP_NEW\<close> at a fresh address; \<open>on_obj a f\<close>
    is the member call \<open>a->f()\<close>, which runs any operation of \<open>Smart_Object\<close> on
    the object at \<open>a\<close> alone, and \<open>heap_run\<close> runs a sequence of them; a call
    leaves the other objects as they were (\<open>heap_run_frame\<close>).
  \<^item> \<open>Heap_Ops\<close>: the client's operations on the heap as one datatype \<open>heap_op\<close>
    with the step function \<open>heap_exec\<close>: \<open>EP_NEW\<close>, copy construction,
    assignment, \<open>Retain\<close> and \<open>Release\<close> at addresses. The assignment operator
    (\<open>SmartObject_assign\<close>, \<open>assign_object\<close>) follows the specification: a
    derived class is an extension of the record \<open>SmartObject\<close>, and only the
    extension is copied. The heaps reachable through returns and caught exceptions
    (inductive \<open>heap_reach\<close>) all conform (\<open>heap_reach_conforms\<close>, by one
    preservation lemma per operation).
  \<^item> This theory: the interface \<open>so_op\<close>, the client's call \<open>Retain()\<close> or
    \<open>Release()\<close> as the debug macros expand it, and the abstraction \<open>rc_abs\<close>. It
    proves that every sequence of calls from a constructed object refines the
    contract (\<open>so_run_simulates\<close>, \<open>so_refines_rc\<close>), the lifecycle properties
    of the specification's section 8 (\<open>lifecycle_destroyed_once\<close>,
    \<open>lifecycle_alive_before\<close>, \<open>ctor_retain_release_identity\<close>), and that every
    object of a heap refines its own contract under any sequence of calls addressed
    to any objects (\<open>heap_refines_rc\<close>).

  \<^bold>\<open>Bounds.\<close> The contract's count is unbounded and the code's counter is 32 bits.
  The code has no overflow check; signed overflow is undefined behaviour in C++, and
  the model's wrap of the word is never used by a theorem. Refinement assumes fewer
  than \<open>INT_MAX\<close> operations after construction, which keeps the count at most
  \<open>INT_MAX\<close>, since each call moves it by one. No loop of the source runs
  unboundedly, so the model needs no fuel: every operation is a finite list of
  statements, and every step of a thread lowers \<open>steps_left\<close>. The concurrent
  theorems assume fewer than \<open>INT_MAX - 1\<close> calls of \<open>Retain\<close> in all the
  threads' lists, which keeps the shared count below \<open>INT_MAX\<close> in every
  interleaving. In \<open>Ownership\<close> the initial references plus all the
  \<open>Retain\<close>s stay below \<open>INT_MAX\<close>, and in \<open>Heap_Ops\<close> a \<open>Retain\<close> is
  called below \<open>INT_MAX\<close> (\<open>op_ok\<close>).

  \<^bold>\<open>What the proofs show, and what they found.\<close>
  \<^item> With a valid policy, an object is destroyed by exactly the \<open>Release\<close> that
    takes the count from 1 to 0. The lock is released before it is deleted and the
    object is freed. Every later call is a use after free.
  \<^item> Spec section 8 says an unmatched \<open>Release\<close> raises
    \<open>NegativeReferenceCount\<close>. In the code the \<open>Release\<close> that reaches 0 has
    already freed the object, so the extra call acts on freed memory
    (\<open>lifecycle_destroyed_once\<close>); no reachable state of the exclusive policies
    faults at all (\<open>reachable_no_fault\<close>).
  \<^item> When the negative branch or the destructor's check throws, the throw skips the
    \<open>Unlock()\<close> that follows it. After \<open>Release\<close> the lock stays held and every
    later call waits on it (\<open>Release_negative_keeps_lock\<close>); after a direct
    delete the storage is freed with the lock still held and never deleted
    (\<open>dtor_nonzero_count\<close>). Section 7 of the spec asks for the lock to be
    released before the error propagates.
  \<^item> A policy value outside the enumeration leaves the lock \<open>NULL\<close>. Every
    operation then dereferences it before any check, so the destructor's
    \<open>if (m_refCounterLock)\<close> can never protect anything (\<open>null_lock_faults\<close>).

  \<^bold>\<open>Not modelled.\<close> The release-build declarations (lines 61--89) and the
  assignment operator (line 58) have no bodies in the repository. The release
  members are not modelled: the specification describes them only as the debug
  bodies without the diagnostic hook, so a model of them would be a copy. The
  assignment operator is modelled from the specification (theory \<open>Heap_Ops\<close>).
  The default argument \<open>EP_LOCK_POLICY\<close> is a macro of a header outside the
  repository; the policy is a parameter. The logger sink and the \<open>EP_VERIFY_*\<close>
  macros are outside the repository: a printed line is a string, and a failed check
  an exception that carries its message. When a destructor throws, C++ before
  C++11 (and with \<open>noexcept(false)\<close>) deallocates and propagates the exception,
  which \<open>delete_this\<close> models; under the implicit \<open>noexcept\<close> destructors of
  C++11 the program terminates instead. A lock is a value inside its object and not
  a separate allocation, so the model cannot tell a fresh lock from one shared with
  another object, and it states no theorem that would need that. The heap's
  allocator never reuses an address; a real one may, so a call that the model
  reports as a use after free is undefined behaviour in C++. The lock classes
  follow the specification (section 4.1: no recursion) and not an operating system,
  whose critical sections and mutexes are recursive for their owner; in the
  sequential theories a call that would wait reports \<open>LockBlocked\<close>, and in
  \<open>Threads\<close> the thread is simply not scheduled. In \<open>Threads\<close> the zero branch
  of \<open>Release\<close> (bump, unlock, \<open>EP_DELETE this\<close>) is one step; the creator's
  reference keeps the count positive there, so no thread reaches it, and in
  \<open>Ownership\<close> it is taken only after every other thread has finished. A
  thread's calls are a fixed list, as in the specification's scenario; calls chosen
  on the fly by client code are not modelled.
\<close>

text \<open>The implementation of an abstract operation: the interface between the
  contract and \<open>SmartObject\<close>.\<close>

fun so_op :: "tid \<Rightarrow> rc_op \<Rightarrow> so_step" where
  "so_op t OpRetain = Retain t"
| "so_op t OpRelease = Release t"

text \<open>The abstraction: a freed object is \<open>Destroyed\<close>, a live one is \<open>Live\<close> with its count.\<close>

definition rc_abs :: "so_world \<Rightarrow> rc_state" where
  "rc_abs w = (case obj w of None \<Rightarrow> Destroyed | Some so \<Rightarrow> Live (nat (sint (m_refCount so))))"

text \<open>A sequence of calls of \<open>Retain\<close> and \<open>Release\<close> on the objects of a heap.\<close>

definition heap_calls :: "tid \<Rightarrow> (addr \<times> rc_op) list \<Rightarrow> (addr \<times> so_step) list" where
  "heap_calls t cs = map (\<lambda>c. (fst c, so_op t (snd c))) cs"

subsection \<open>Simulation of the contract\<close>

lemma rc_abs_ctor: "rc_abs (SmartObject_ctor p) = Live 1"
  by (simp add: rc_abs_def SmartObject_ctor_def)

lemma so_op_freed:
  "rc_step (rc_abs w) op = None \<Longrightarrow> so_op t op w = Inl (UseAfterFree, w)"
  by (cases op) (auto simp: rc_abs_def split: option.splits)

lemma so_op_refines_step:
  assumes "world_inv w" "rc_step (rc_abs w) op = Some s'" "int (rc_count (rc_abs w)) < INT_MAX"
  shows "\<exists>w'. so_op t op w = Inr w' \<and> world_inv w' \<and> rc_abs w' = s'"
proof -
  obtain so where o: "obj w = Some so"
    using assms(2) by (cases "obj w") (auto simp: rc_abs_def)
  have inv: "so_inv so" using assms(1) o by (simp add: world_inv_def)
  have pos: "0 < sint (m_refCount so)" using inv by (simp add: so_inv_def)
  have lt: "sint (m_refCount so) < INT_MAX" using assms(3) o pos by (simp add: rc_abs_def)
  show ?thesis
  proof (cases op)
    case OpRetain
    have "so_inv (so\<lparr>m_refCount := m_refCount so + 1\<rparr>)"
      using inv lt by (intro so_inv_count) (auto simp: so_inv_def count_simps)
    then show ?thesis using OpRetain assms(2) o pos lt Retain_eq [OF inv o lt, of t]
      by (auto simp: world_inv_def rc_abs_def count_simps nat_add_distrib)
  next
    case OpRelease
    show ?thesis
    proof (cases "sint (m_refCount so) = 1")
      case True
      then show ?thesis using OpRelease assms(2) o Release_eq_last [OF inv o True, of t]
        by (simp add: world_inv_def rc_abs_def)
    next
      case False
      then have gt: "1 < sint (m_refCount so)" using pos by simp
      have "so_inv (so\<lparr>m_refCount := m_refCount so - 1\<rparr>)"
        using inv gt by (intro so_inv_count) (auto simp: count_simps)
      then show ?thesis using OpRelease assms(2) o gt Release_eq_live [OF inv o gt, of t]
        by (auto simp: world_inv_def rc_abs_def count_simps nat_diff_distrib)
    qed
  qed
qed

lemma so_run_simulates:
  assumes "world_inv w" "int (rc_count (rc_abs w)) + int (length ops) \<le> INT_MAX"
  shows "case rc_run (rc_abs w) ops of
           Some s' \<Rightarrow> \<exists>w'. run_steps (map (so_op t) ops) w = Inr w' \<and> world_inv w' \<and> rc_abs w' = s'
         | None \<Rightarrow> \<exists>w'. run_steps (map (so_op t) ops) w = Inl (UseAfterFree, w')"
  using assms
proof (induction ops arbitrary: w)
  case Nil
  then show ?case by simp
next
  case (Cons op ops)
  show ?case
  proof (cases "rc_step (rc_abs w) op")
    case None
    then show ?thesis using so_op_freed [OF None, of t] by simp
  next
    case (Some s1)
    have "int (rc_count (rc_abs w)) < INT_MAX" using Cons.prems(2) by simp
    then obtain w1 where w1: "so_op t op w = Inr w1" "world_inv w1" "rc_abs w1 = s1"
      using so_op_refines_step [OF Cons.prems(1) Some] by blast
    have "int (rc_count (rc_abs w1)) + int (length ops) \<le> INT_MAX"
      using Cons.prems(2) rc_step_count_bound [OF Some] w1(3) by simp
    then have "case rc_run s1 ops of
           Some s' \<Rightarrow> \<exists>w'. run_steps (map (so_op t) ops) w1 = Inr w' \<and> world_inv w' \<and> rc_abs w' = s'
         | None \<Rightarrow> \<exists>w'. run_steps (map (so_op t) ops) w1 = Inl (UseAfterFree, w')"
      using Cons.IH [OF w1(2)] w1(3) by simp
    moreover have eq: "run_steps (map (so_op t) (op # ops)) w = run_steps (map (so_op t) ops) w1"
      using w1(1) by simp
    ultimately show ?thesis using Some unfolding eq by simp
  qed
qed

text \<open>
  C1: Take an object constructed with a valid lock policy and run any sequence of fewer than INT_MAX calls of Retain and Release on it. The code behaves as the reference-count contract of the specification says. While the contract allows the sequence, every call returns normally, and the final memory satisfies the invariant and has the contract's state: the live count, or destroyed. When the contract forbids a call, because the object is already destroyed, the code reports a use after free.
\<close>

theorem so_refines_rc:
  assumes "lock_for_policy p \<noteq> None" "int (length ops) < INT_MAX"
  shows "case rc_run (Live 1) ops of
           Some s' \<Rightarrow> \<exists>w'. run_steps (map (so_op t) ops) (SmartObject_ctor p) = Inr w'
                          \<and> world_inv w' \<and> rc_abs w' = s'
         | None \<Rightarrow> \<exists>w'. run_steps (map (so_op t) ops) (SmartObject_ctor p) = Inl (UseAfterFree, w')"
  using so_run_simulates [OF ctor_inv [OF assms(1)], of ops t] assms(2) by (simp add: rc_abs_ctor)

theorem so_refines_rc_witness:
  "\<exists>w'. run_steps (map (so_op 0) [OpRetain, OpRelease, OpRelease, OpRetain]) (SmartObject_ctor LOCK_POLICY_MUTEX)
     = Inl (UseAfterFree, w')"
  using so_refines_rc [of LOCK_POLICY_MUTEX "[OpRetain, OpRelease, OpRelease, OpRetain]" 0] by simp

subsection \<open>Lifecycle\<close>

text \<open>
  C5: Construct an object, retain it k times and release it k + 1 times. The last Release destroys the object. Any further Retain or Release on it is a use after free.
\<close>

theorem lifecycle_destroyed_once:
  assumes "lock_for_policy p \<noteq> None" "int k < INT_MAX"
  shows "\<exists>w'. run_steps (replicate k (Retain t) @ replicate (Suc k) (Release t)) (SmartObject_ctor p) = Inr w'
           \<and> obj w' = None \<and> Release t w' = Inl (UseAfterFree, w') \<and> Retain t w' = Inl (UseAfterFree, w')"
proof -
  let ?so = "\<lparr>m_refCount = 1, m_refCounterLock = lock_for_policy p, m_lockPolicy = p\<rparr>"
  have inv: "so_inv ?so" using assms(1) by (simp add: so_inv_def)
  have o: "obj (SmartObject_ctor p) = Some ?so" by (simp add: SmartObject_ctor_def)
  obtain w1 where w1: "run_steps (replicate k (Retain t) @ replicate k (Release t)) (SmartObject_ctor p) = Inr w1"
      "obj w1 = Some ?so"
    using retain_release_roundtrip [OF inv o, of k t] assms(2) by auto
  obtain w2 where w2: "Release t w1 = Inr w2" "obj w2 = None"
    using Release_eq_last [OF inv w1(2)] by simp
  have run: "run_steps ((replicate k (Retain t) @ replicate k (Release t)) @ [Release t])
      (SmartObject_ctor p) = Inr w2"
    by (subst run_steps_append) (simp add: w1(1) w2(1))
  moreover have "(replicate k (Retain t) @ replicate k (Release t)) @ [Release t]
      = replicate k (Retain t) @ replicate (Suc k) (Release t)"
    by (simp add: replicate_append_same)
  ultimately show ?thesis using w2(2) by auto
qed

theorem lifecycle_destroyed_once_witness:
  "\<exists>w'. run_steps (replicate 3 (Retain 0) @ replicate 4 (Release 0)) (SmartObject_ctor LOCK_POLICY_CRITICALSECTION) = Inr w'
     \<and> obj w' = None \<and> Release 0 w' = Inl (UseAfterFree, w') \<and> Retain 0 w' = Inl (UseAfterFree, w')"
  using lifecycle_destroyed_once [of LOCK_POLICY_CRITICALSECTION 3 0] by (simp add: numeral_eq_Suc)

text \<open>
  C6: No Release before the (k+1)-th destroys the object. After k retains and j releases with j at most k, the object is alive, satisfies the invariant and has count 1 + k - j.
\<close>

theorem lifecycle_alive_before:
  assumes "lock_for_policy p \<noteq> None" "int k < INT_MAX" "j \<le> k"
  shows "\<exists>w' so'. run_steps (replicate k (Retain t) @ replicate j (Release t)) (SmartObject_ctor p) = Inr w'
           \<and> obj w' = Some so' \<and> so_inv so' \<and> sint (m_refCount so') = 1 + int k - int j"
proof -
  let ?so = "\<lparr>m_refCount = 1, m_refCounterLock = lock_for_policy p, m_lockPolicy = p\<rparr>"
  have inv: "so_inv ?so" using assms(1) by (simp add: so_inv_def)
  have o: "obj (SmartObject_ctor p) = Some ?so" by (simp add: SmartObject_ctor_def)
  obtain c evs where r: "run_steps (replicate k (Retain t)) (SmartObject_ctor p)
        = Inr (put_obj (?so\<lparr>m_refCount := c\<rparr>) evs (SmartObject_ctor p))"
      and c: "sint c = 1 + int k"
    using retain_n [OF inv o, of k t] assms(2) by auto
  let ?w1 = "put_obj (?so\<lparr>m_refCount := c\<rparr>) evs (SmartObject_ctor p)"
  have inv1: "so_inv (?so\<lparr>m_refCount := c\<rparr>)" using inv c by (intro so_inv_count) simp_all
  obtain c' evs' where r': "run_steps (replicate j (Release t)) ?w1
        = Inr (put_obj (?so\<lparr>m_refCount := c'\<rparr>) evs' ?w1)"
      and c': "sint c' = sint c - int j"
    using release_n [OF inv1, of ?w1 j t] c assms(3) by auto
  have "so_inv (?so\<lparr>m_refCount := c'\<rparr>)" using inv c c' assms(3) by (intro so_inv_count) simp_all
  then show ?thesis using r r' c c' by (simp add: run_steps_append)
qed

theorem lifecycle_alive_before_witness:
  "\<exists>w' so'. run_steps (replicate 3 (Retain 0) @ replicate 3 (Release 0)) (SmartObject_ctor LOCK_POLICY_MUTEX) = Inr w'
     \<and> obj w' = Some so' \<and> so_inv so' \<and> sint (m_refCount so') = 1"
  using lifecycle_alive_before [of LOCK_POLICY_MUTEX 3 3 0] by simp

text \<open>
  C7: Construct an object, retain it n times and then release it n times. The object is exactly as the constructor built it: count 1, its lock free, the same policy.
\<close>

theorem ctor_retain_release_identity:
  assumes "lock_for_policy p \<noteq> None" "int n < INT_MAX"
  shows "\<exists>w'. run_steps (replicate n (Retain t) @ replicate n (Release t)) (SmartObject_ctor p) = Inr w'
           \<and> obj w' = obj (SmartObject_ctor p)"
proof -
  let ?so = "\<lparr>m_refCount = 1, m_refCounterLock = lock_for_policy p, m_lockPolicy = p\<rparr>"
  have inv: "so_inv ?so" using assms(1) by (simp add: so_inv_def)
  have o: "obj (SmartObject_ctor p) = Some ?so" by (simp add: SmartObject_ctor_def)
  show ?thesis using retain_release_roundtrip [OF inv o, of n t] assms(2) o by auto
qed

theorem ctor_retain_release_identity_witness:
  "\<exists>w'. run_steps (replicate 10 (Retain 0) @ replicate 10 (Release 0)) (SmartObject_ctor LOCK_POLICY_CRITICALSECTION) = Inr w'
     \<and> obj w' = obj (SmartObject_ctor LOCK_POLICY_CRITICALSECTION)"
  using ctor_retain_release_identity [of LOCK_POLICY_CRITICALSECTION 10 0] by simp

subsection \<open>Several objects on one heap\<close>

lemma rc_abs_slot_store [simp]:
  "rc_abs (slot b (store a w h)) = (if b = a then rc_abs w else rc_abs (slot b h))"
  by (simp add: rc_abs_def slot_def)

lemma rc_abs_Destroyed_iff: "rc_abs w = Destroyed \<longleftrightarrow> obj w = None"
  by (simp add: rc_abs_def split: option.split)

lemma heap_step_refines:
  assumes inv: "heap_inv h" and st: "rc_step (rc_abs (slot a h)) op = Some s'"
    and bound: "int (rc_count (rc_abs (slot a h))) < INT_MAX"
  shows "\<exists>h'. on_obj a (so_op t op) h = Inr h' \<and> heap_inv h' \<and> rc_abs (slot a h') = s'
           \<and> (\<forall>b. b \<noteq> a \<longrightarrow> rc_abs (slot b h') = rc_abs (slot b h))"
proof -
  obtain w' where w': "so_op t op (slot a h) = Inr w'" "world_inv w'" "rc_abs w' = s'"
    using so_op_refines_step [OF heap_inv_slot [OF inv] st bound] by blast
  have "hobjs h a \<noteq> None" using st by (cases "hobjs h a") (auto simp: rc_abs_def slot_def)
  then have "a < hnext h" using heap_inv_fresh [OF inv, of a] by (cases "hnext h \<le> a") auto
  then have "heap_inv (store a w' h)" using heap_inv_store [OF inv w'(2)] by simp
  then show ?thesis using w' by (simp add: on_obj_def rc_abs_def)
qed

lemma heap_step_freed:
  "rc_step (rc_abs (slot a h)) op = None \<Longrightarrow> \<exists>h'. on_obj a (so_op t op) h = Inl (UseAfterFree, h')"
  using so_op_freed [of "slot a h" op t] by (simp add: on_obj_def)

text \<open>
  C18: On a heap of objects that satisfy the invariant, run any sequence of Retain and Release calls addressed to any objects (fewer than INT_MAX minus the largest count). Each object behaves as its own reference-count contract, fed with the calls addressed to it in order. When every object's contract allows its calls, the run returns normally, the heap keeps the invariant and each object ends in its contract's state. Otherwise the run stops with a use after free.
\<close>

theorem heap_refines_rc:
  assumes "heap_inv h" "\<forall>a. int (rc_count (rc_abs (slot a h))) + int (length cs) \<le> INT_MAX"
  shows "if (\<forall>a. rc_run (rc_abs (slot a h)) (ops_at a cs) \<noteq> None)
         then (\<exists>h'. heap_run (heap_calls t cs) h = Inr h' \<and> heap_inv h'
                    \<and> (\<forall>a. rc_run (rc_abs (slot a h)) (ops_at a cs) = Some (rc_abs (slot a h'))))
         else (\<exists>h'. heap_run (heap_calls t cs) h = Inl (UseAfterFree, h'))"
  using assms
proof (induction cs arbitrary: h)
  case Nil
  then show ?case by (simp add: heap_calls_def)
next
  case (Cons c cs)
  obtain b op where c: "c = (b, op)" by (cases c)
  show ?case
  proof (cases "rc_step (rc_abs (slot b h)) op")
    case None
    then obtain h1 where "on_obj b (so_op t op) h = Inl (UseAfterFree, h1)" using heap_step_freed by blast
    moreover have "rc_run (rc_abs (slot b h)) (ops_at b (c # cs)) = None" using None c by simp
    ultimately show ?thesis using c by (auto simp: heap_calls_def)
  next
    case (Some s1)
    have "int (rc_count (rc_abs (slot b h))) < INT_MAX" using Cons.prems(2) [rule_format, of b] by simp
    then obtain h1 where h1: "on_obj b (so_op t op) h = Inr h1" "heap_inv h1" "rc_abs (slot b h1) = s1"
        "\<forall>a. a \<noteq> b \<longrightarrow> rc_abs (slot a h1) = rc_abs (slot a h)"
      using heap_step_refines [OF Cons.prems(1) Some] by blast
    have runs: "rc_run (rc_abs (slot a h)) (ops_at a (c # cs)) = rc_run (rc_abs (slot a h1)) (ops_at a cs)" for a
      using c Some h1(3,4) by (cases "a = b") simp_all
    have "int (rc_count (rc_abs (slot a h1))) + int (length cs) \<le> INT_MAX" for a
    proof (cases "a = b")
      case True
      then show ?thesis using Cons.prems(2) [rule_format, of b] rc_step_count_bound [OF Some] h1(3) by simp
    next
      case False
      then show ?thesis using Cons.prems(2) [rule_format, of a] h1(4) by simp
    qed
    then have ih: "if (\<forall>a. rc_run (rc_abs (slot a h1)) (ops_at a cs) \<noteq> None)
         then (\<exists>h'. heap_run (heap_calls t cs) h1 = Inr h' \<and> heap_inv h'
                    \<and> (\<forall>a. rc_run (rc_abs (slot a h1)) (ops_at a cs) = Some (rc_abs (slot a h'))))
         else (\<exists>h'. heap_run (heap_calls t cs) h1 = Inl (UseAfterFree, h'))"
      using Cons.IH [OF h1(2)] by blast
    have "heap_run (heap_calls t (c # cs)) h = heap_run (heap_calls t cs) h1"
      using c h1(1) by (simp add: heap_calls_def)
    then show ?thesis using ih unfolding runs by simp
  qed
qed

theorem heap_refines_rc_witness:
  "\<exists>h'. heap_run (heap_calls 0 [(1, OpRetain), (0, OpRelease), (1, OpRelease), (1, OpRelease)])
          \<lparr>hobjs = (\<lambda>a. None)(0 := Some (mutex_obj 1), 1 := Some (mutex_obj 1)), hnext = 2, htrace = []\<rparr> = Inr h'
      \<and> hobjs h' 0 = None \<and> hobjs h' 1 = None"
proof -
  let ?h = "\<lparr>hobjs = (\<lambda>a. None)(0 := Some (mutex_obj 1), 1 := Some (mutex_obj 1)), hnext = 2, htrace = []\<rparr>"
  let ?cs = "[(1, OpRetain), (0, OpRelease), (1, OpRelease), (1, OpRelease)] :: (addr \<times> rc_op) list"
  have inv: "heap_inv ?h" by (auto simp: heap_inv_def world_inv_def slot_def so_inv_def new_lock_def)
  have bound: "\<forall>a. int (rc_count (rc_abs (slot a ?h))) + int (length ?cs) \<le> INT_MAX"
    by (simp add: rc_abs_def slot_def)
  have runs: "\<forall>a. rc_run (rc_abs (slot a ?h)) (ops_at a ?cs) = Some Destroyed"
    by (simp add: rc_abs_def slot_def)
  then have ok: "\<forall>a. rc_run (rc_abs (slot a ?h)) (ops_at a ?cs) \<noteq> None" by simp
  obtain h' where r: "heap_run (heap_calls 0 ?cs) ?h = Inr h'"
      and abs: "\<forall>a. rc_run (rc_abs (slot a ?h)) (ops_at a ?cs) = Some (rc_abs (slot a h'))"
    using heap_refines_rc [OF inv bound, of 0] unfolding if_P [OF ok] by blast
  have "rc_abs (slot a h') = Destroyed" for a using abs runs by simp
  then have "hobjs h' a = None" for a using rc_abs_Destroyed_iff [of "slot a h'"] by simp
  then show ?thesis using r by blast
qed

end
